theory Spec2Isabelle
  imports Main "HOL-Library.Sublist" "HOL-Library.Multiset"
begin

section \<open>Strings and Python primitives\<close>

text \<open>
  A Python \<open>str\<close> or \<open>bytes\<close> value is a \<^typ>\<open>string\<close>: the list of its
  characters, each a code point below 256. Every text the functions below accept or
  return as a GUID consists of ASCII characters only.
\<close>

datatype py_error = IndexError | OtherError

text \<open>\<open>s.split(c)\<close> for a one-character separator: every occurrence of \<open>c\<close> ends a
  group, so the result has one more group than \<open>s\<close> has separators.\<close>

fun split_char :: "char \<Rightarrow> string \<Rightarrow> string list" where
  "split_char c [] = [[]]"
| "split_char c (x # xs) =
     (if x = c then [] # split_char c xs
      else (case split_char c xs of
              [] \<Rightarrow> [[x]]
            | p # ps \<Rightarrow> (x # p) # ps))"

text \<open>\<open>s.replace('-', '')\<close>.\<close>

definition remove_hyphens :: "string \<Rightarrow> string" where
  "remove_hyphens s = filter (\<lambda>c. c \<noteq> CHR ''-'') s"

section \<open>GUID Validator\<close>

text \<open>\<open>hex_chars = set('0123456789ABCDEF')\<close>.\<close>

definition hex_chars :: "char set" where
  "hex_chars = set ''0123456789ABCDEF''"

text \<open>
  The body of the \<open>try\<close> block of \<open>validate_guid_structure\<close>. \<open>Inl\<close> is an
  exception raised inside it; the two subscripts \<open>parts[2][0]\<close> and \<open>parts[3][0]\<close>
  are the places that can raise.
\<close>

definition validate_body :: "string \<Rightarrow> py_error + bool" where
  "validate_body guid =
     (case split_char CHR ''-'' guid of
        [p0, p1, p2, p3, p4] \<Rightarrow>
          if \<not> (length p0 = 8 \<and> length p1 = length p2 \<and> length p2 = length p3
                 \<and> length p3 = 4 \<and> length p4 = 12) then Inr False
          else if \<not> list_all (\<lambda>c. c \<in> hex_chars) (remove_hyphens guid) then Inr False
          else (case p2 of
                  [] \<Rightarrow> Inl IndexError
                | v # _ \<Rightarrow>
                    if v \<noteq> CHR ''4'' then Inr False
                    else (case p3 of
                            [] \<Rightarrow> Inl IndexError
                          | r # _ \<Rightarrow>
                              if r \<notin> set ''89AB'' then Inr False else Inr True))
      | _ \<Rightarrow> Inr False)"

text \<open>\<open>except Exception: return False\<close>.\<close>

definition validate_guid_structure :: "string \<Rightarrow> bool" where
  "validate_guid_structure guid =
     (case validate_body guid of Inl _ \<Rightarrow> False | Inr b \<Rightarrow> b)"

text \<open>
  The validator's contract in the words of the specification, with the set of accepted
  digits \<open>H\<close> and the set of accepted variant characters \<open>V\<close> left open: five groups of
  lengths 8-4-4-4-12 joined by hyphens, digits from \<open>H\<close>, the third group starting with
  \<open>4\<close> and the fourth with a character of \<open>V\<close>.
\<close>

definition guid_shape :: "char set \<Rightarrow> char set \<Rightarrow> string \<Rightarrow> bool" where
  "guid_shape H V s \<longleftrightarrow>
     (\<exists>g1 g2 g3 g4 g5.
        s = g1 @ ''-'' @ g2 @ ''-'' @ g3 @ ''-'' @ g4 @ ''-'' @ g5
      \<and> length g1 = 8 \<and> length g2 = 4 \<and> length g3 = 4 \<and> length g4 = 4 \<and> length g5 = 12
      \<and> set (g1 @ g2 @ g3 @ g4 @ g5) \<subseteq> H
      \<and> hd g3 = CHR ''4'' \<and> hd g4 \<in> V)"

text \<open>The hexadecimal digits read case-insensitively, as the specification words them.\<close>

definition hex_chars_ci :: "char set" where
  "hex_chars_ci = set ''0123456789ABCDEFabcdef''"

section \<open>Regular-expression search for GUID-shaped text\<close>

text \<open>
  \<open>GUID_REGEX\<close> and the pattern of \<open>extract_guid_candidates\<close> are the same
  fixed-length pattern, compiled with \<open>re.IGNORECASE\<close>:
  \<open>[0-9A-F]{8}-[0-9A-F]{4}-[0-9A-F]{4}-[0-9A-F]{4}-[0-9A-F]{12}\<close>.
  It is a sequence of 36 character classes.
\<close>

datatype cclass = HexCI | Hyphen

fun class_matches :: "cclass \<Rightarrow> char \<Rightarrow> bool" where
  "class_matches HexCI c = (c \<in> hex_chars_ci)"
| "class_matches Hyphen c = (c = CHR ''-'')"

definition guid_pattern :: "cclass list" where
  "guid_pattern =
     replicate 8 HexCI @ [Hyphen] @ replicate 4 HexCI @ [Hyphen] @ replicate 4 HexCI
     @ [Hyphen] @ replicate 4 HexCI @ [Hyphen] @ replicate 12 HexCI"

text \<open>The pattern matches at the start of the text.\<close>

fun match_here :: "cclass list \<Rightarrow> string \<Rightarrow> bool" where
  "match_here [] cs = True"
| "match_here (k # ks) [] = False"
| "match_here (k # ks) (c # cs) = (class_matches k c \<and> match_here ks cs)"

text \<open>
  \<open>pattern.finditer(text)\<close> for a non-empty pattern of fixed length: the start offsets
  of the matches, found left to right, the scan resuming after the end of each match.
  \<open>off\<close> is the offset of the text that is left, \<open>skip\<close> the number of characters of
  the last match still to be passed over.
\<close>

fun finditer_from :: "cclass list \<Rightarrow> nat \<Rightarrow> nat \<Rightarrow> string \<Rightarrow> nat list" where
  "finditer_from pat off skip [] = []"
| "finditer_from pat off skip (c # cs) =
     (if 0 < skip then finditer_from pat (Suc off) (skip - 1) cs
      else if match_here pat (c # cs)
           then off # finditer_from pat (Suc off) (length pat - 1) cs
           else finditer_from pat (Suc off) 0 cs)"

definition finditer :: "cclass list \<Rightarrow> string \<Rightarrow> nat list" where
  "finditer pat text = finditer_from pat 0 0 text"

text \<open>The text of the match that starts at offset \<open>m\<close>: \<open>match.group(0)\<close>.\<close>

definition match_group :: "cclass list \<Rightarrow> string \<Rightarrow> nat \<Rightarrow> string" where
  "match_group pat text m = take (length pat) (drop m text)"

text \<open>\<open>pattern.search(text)\<close>: the first match, if any.\<close>

definition regex_search :: "cclass list \<Rightarrow> string \<Rightarrow> string option" where
  "regex_search pat text =
     (case finditer pat text of [] \<Rightarrow> None | m # _ \<Rightarrow> Some (match_group pat text m))"

text \<open>\<open>str.upper()\<close> on ASCII text; the source applies it to matches of the pattern
  only, which consist of hexadecimal digits and hyphens.\<close>

definition upper_char :: "char \<Rightarrow> char" where
  "upper_char c =
     (case map_of (zip ''abcdefghijklmnopqrstuvwxyz'' ''ABCDEFGHIJKLMNOPQRSTUVWXYZ'') c of
        Some u \<Rightarrow> u | None \<Rightarrow> c)"

definition py_upper :: "string \<Rightarrow> string" where
  "py_upper s = map upper_char s"

text \<open>
  \<open>s[i:j]\<close> with Python's rules: a negative bound counts from the end, every bound is
  clipped to the text, and the slice is empty when the bounds cross.
\<close>

definition py_slice :: "string \<Rightarrow> int \<Rightarrow> int \<Rightarrow> string" where
  "py_slice s i j =
     (let n = int (length s);
          i' = (if i < 0 then max 0 (n + i) else min i n);
          j' = (if j < 0 then max 0 (n + j) else min j n)
      in take (nat (j' - i')) (drop (nat i') s))"

section \<open>Candidate Extractor\<close>

record candidate =
  guid :: string
  position :: int
  context_excerpt :: string

text \<open>\<open>get_context_string\<close> with \<open>context_size = 50\<close>; the excerpt is kept as bytes
  (its decoding for display is not modelled).\<close>

definition get_context_string :: "string \<Rightarrow> nat \<Rightarrow> nat \<Rightarrow> string" where
  "get_context_string data start end =
     (let context_start = max 0 (int start - 50);
          context_end = min (int (length data)) (int end + 50)
      in py_slice data context_start context_end)"

definition extract_guid_candidates :: "string \<Rightarrow> int \<Rightarrow> int \<Rightarrow> candidate list" where
  "extract_guid_candidates data context_pos window_size =
     (let start = max 0 (context_pos - window_size);
          end = min (int (length data)) (context_pos + window_size);
          context_data = py_slice data start end
      in map (\<lambda>m. \<lparr>guid = py_upper (match_group guid_pattern context_data m),
                     position = int m + start - context_pos,
                     context_excerpt = get_context_string context_data m (m + length guid_pattern)\<rparr>)
           (filter (\<lambda>m. validate_guid_structure (py_upper (match_group guid_pattern context_data m)))
              (finditer guid_pattern context_data)))"

section \<open>Confidence Scorer\<close>

text \<open>
  \<open>Counter(keys)\<close>: a dictionary from key to count that keeps its keys in the order
  of their first insertion, so an association list.
\<close>

fun counter_add :: "string \<Rightarrow> (string \<times> nat) list \<Rightarrow> (string \<times> nat) list" where
  "counter_add k [] = [(k, 1)]"
| "counter_add k ((k', n) # rest) =
     (if k = k' then (k', n + 1) # rest else (k', n) # counter_add k rest)"

definition Counter :: "string list \<Rightarrow> (string \<times> nat) list" where
  "Counter ks = foldl (\<lambda>acc k. counter_add k acc) [] ks"

text \<open>The body of the loop over \<open>guid_counts.items()\<close>.\<close>

definition score_guid :: "candidate list \<Rightarrow> string \<times> nat \<Rightarrow> string \<times> int \<times> nat" where
  "score_guid guid_candidates item =
     (case item of (g, count') \<Rightarrow>
        let score = int count' * 10;
            positions = map position (filter (\<lambda>c. guid c = g) guid_candidates);
            close_positions = filter (\<lambda>p. \<bar>p\<bar> < 100) positions;
            score = (if close_positions \<noteq> [] then score + int (length close_positions) * 5
                     else score);
            before_positions = filter (\<lambda>p. p < 0) positions;
            score = (if before_positions \<noteq> [] then score + int (length before_positions) * 3
                     else score)
        in (g, score, count'))"

text \<open>
  \<open>scored_guids.sort(key=lambda x: x[1], reverse=True)\<close>: Python's sort is stable, also
  with \<open>reverse=True\<close>, so it is the stable sort by descending score.
\<close>

definition sort_by_score_desc :: "(string \<times> int \<times> nat) list \<Rightarrow> (string \<times> int \<times> nat) list" where
  "sort_by_score_desc xs = sort_key (\<lambda>x. - fst (snd x)) xs"

definition analyze_guid_confidence :: "candidate list \<Rightarrow> (string \<times> int \<times> nat) list option" where
  "analyze_guid_confidence guid_candidates =
     (if guid_candidates = [] then None
      else Some (sort_by_score_desc
                   (map (score_guid guid_candidates) (Counter (map guid guid_candidates)))))"

text \<open>
  The scorer's contract in the words of the specification. The distinct values in the
  order in which they are first seen, the occurrences of a value, and its score:
  10 for each occurrence, 5 more for each occurrence closer than 100 to its marker,
  3 more for each occurrence before its marker.
\<close>

fun first_seen :: "string list \<Rightarrow> string list" where
  "first_seen [] = []"
| "first_seen (k # ks) = k # filter (\<lambda>x. x \<noteq> k) (first_seen ks)"

definition occurrences :: "candidate list \<Rightarrow> string \<Rightarrow> candidate list" where
  "occurrences cs g = filter (\<lambda>c. guid c = g) cs"

definition spec_score :: "candidate list \<Rightarrow> string \<Rightarrow> int" where
  "spec_score cs g =
     10 * int (length (occurrences cs g))
     + 5 * int (length (filter (\<lambda>c. \<bar>position c\<bar> < 100) (occurrences cs g)))
     + 3 * int (length (filter (\<lambda>c. position c < 0) (occurrences cs g)))"

definition scored_guid :: "candidate list \<Rightarrow> string \<Rightarrow> string \<times> int \<times> nat" where
  "scored_guid cs g = (g, spec_score cs g, length (occurrences cs g))"

text \<open>What \<open>counter_add k\<close> does to an entry when the key is already present.\<close>

definition bump :: "string \<Rightarrow> string \<times> nat \<Rightarrow> string \<times> nat" where
  "bump k e = (if fst e = k then (fst e, snd e + 1) else e)"

text \<open>Two candidates, used to run the scorer on concrete input.\<close>

definition c1 :: candidate where
  "c1 = \<lparr>guid = ''2A22A82B-C342-444D-972F-5270FB5080DF'', position = -40, context_excerpt = []\<rparr>"

definition c2 :: candidate where
  "c2 = \<lparr>guid = ''0F0E0D0C-0B0A-4908-8706-050403020100'', position = 200, context_excerpt = []\<rparr>"

section \<open>Strategy A: the structured archive query\<close>

text \<open>
  The device agent and the host tools are outside the program. What a command answers
  is a value of the model: \<open>_run_cmd\<close> returns the triple (return code, stdout,
  stderr), and \<open>reboot_device\<close>, \<open>_wait_for_device\<close> and
  \<open>collect_syslog_archive\<close> return a truth value.
\<close>

type_synonym cmd_result = "int \<times> string \<times> string"

definition BLDB_FILENAME :: string where
  "BLDB_FILENAME = ''BLDatabaseManager.sqlite''"

text \<open>\<open>needle in text\<close> for strings: \<open>needle\<close> occurs in \<open>text\<close> as a substring.\<close>

fun py_in :: "string \<Rightarrow> string \<Rightarrow> bool" where
  "py_in needle [] = (needle = [])"
| "py_in needle (c # cs) = (prefix needle (c # cs) \<or> py_in needle cs)"

text \<open>
  \<open>str.splitlines()\<close>. The line boundaries below code point 256 are LF, CR, CR LF,
  VT, FF, FS, GS, RS and NEL; the boundaries are dropped, and no empty last line is
  produced after a final boundary. \<open>acc\<close> is the current line, reversed.
\<close>

definition line_boundaries :: "char set" where
  "line_boundaries = {CHR 0x0A, CHR 0x0D, CHR 0x0B, CHR 0x0C, CHR 0x1C, CHR 0x1D, CHR 0x1E, CHR 0x85}"

fun splitlines_from :: "string \<Rightarrow> string \<Rightarrow> string list" where
  "splitlines_from acc [] = (if acc = [] then [] else [rev acc])"
| "splitlines_from acc [c] =
     (if c \<in> line_boundaries then [rev acc] else [rev (c # acc)])"
| "splitlines_from acc (c # d # cs) =
     (if c = CHR 0x0D \<and> d = CHR 0x0A then rev acc # splitlines_from [] cs
      else if c \<in> line_boundaries then rev acc # splitlines_from [] (d # cs)
      else splitlines_from (c # acc) (d # cs))"

definition splitlines :: "string \<Rightarrow> string list" where
  "splitlines s = splitlines_from [] s"

text \<open>
  The loop over the lines of \<open>extract_guid_from_archive\<close>: a line that holds the
  marker filename is searched with \<open>GUID_REGEX\<close>; a match is upper-cased and returned,
  and without a match the loop goes on to the next line.
\<close>

fun scan_lines :: "string list \<Rightarrow> string option" where
  "scan_lines [] = None"
| "scan_lines (line # rest) =
     (if py_in BLDB_FILENAME line then
        (case regex_search guid_pattern line of
           Some m \<Rightarrow> Some (py_upper m)
         | None \<Rightarrow> scan_lines rest)
      else scan_lines rest)"

text \<open>\<open>log_tool\<close> is the answer of \<open>shutil.which("/usr/bin/log")\<close>, \<open>res\<close> the result
  of the \<open>log show\<close> command.\<close>

definition extract_guid_from_archive :: "bool \<Rightarrow> cmd_result \<Rightarrow> string option" where
  "extract_guid_from_archive log_tool res =
     (if \<not> log_tool then None
      else (case res of (code, stdout, stderr) \<Rightarrow>
              if code \<noteq> 0 then None else scan_lines (splitlines stdout)))"

text \<open>
  The archive query in the words of the specification: the first line that contains the
  marker filename is taken, and the search is restricted to that line.
\<close>

definition first_marker_line_candidate :: "string \<Rightarrow> string option" where
  "first_marker_line_candidate stdout =
     (case find (py_in BLDB_FILENAME) (splitlines stdout) of
        None \<Rightarrow> None
      | Some line \<Rightarrow> map_option py_upper (regex_search guid_pattern line))"

text \<open>What one outer attempt of Strategy A meets.\<close>

record attempt_new =
  reboot_ok :: bool
  reconnected :: bool
  archive_ok :: bool
  log_tool_found :: bool
  log_show :: cmd_result

text \<open>The trace of the engine: the outer attempts that were begun, and the recovery
  actions between the attempts of Strategy B.\<close>

datatype gevent = TryNew nat | Fallback | TryLegacy nat | RebootDevice | DetectDevice

text \<open>Python's truth value of an optional string: \<open>None\<close> and the empty string are
  false.\<close>

fun truthy :: "string option \<Rightarrow> bool" where
  "truthy None = False"
| "truthy (Some s) = (s \<noteq> [])"

text \<open>
  \<open>get_guid_auto_new\<close>: the loop \<open>for attempt in range(1, max_attempts + 1)\<close>, as a
  recursion over the attempt numbers that are left.
\<close>

fun new_attempts :: "(nat \<Rightarrow> attempt_new) \<Rightarrow> nat \<Rightarrow> nat list \<Rightarrow> gevent list \<times> string option" where
  "new_attempts env max_attempts [] = ([], None)"
| "new_attempts env max_attempts (attempt # rest) =
     (if \<not> reboot_ok (env attempt) then
        (if attempt = max_attempts then ([TryNew attempt], None)
         else (TryNew attempt # fst (new_attempts env max_attempts rest),
               snd (new_attempts env max_attempts rest)))
      else if \<not> reconnected (env attempt) then
        (if attempt = max_attempts then ([TryNew attempt], None)
         else (TryNew attempt # fst (new_attempts env max_attempts rest),
               snd (new_attempts env max_attempts rest)))
      else if \<not> archive_ok (env attempt) then
        (if attempt = max_attempts then ([TryNew attempt], None)
         else (TryNew attempt # fst (new_attempts env max_attempts rest),
               snd (new_attempts env max_attempts rest)))
      else
        (case extract_guid_from_archive (log_tool_found (env attempt)) (log_show (env attempt)) of
           Some g \<Rightarrow>
             if g \<noteq> [] \<and> validate_guid_structure g then ([TryNew attempt], Some g)
             else (TryNew attempt # fst (new_attempts env max_attempts rest),
                   snd (new_attempts env max_attempts rest))
         | None \<Rightarrow>
             (TryNew attempt # fst (new_attempts env max_attempts rest),
              snd (new_attempts env max_attempts rest))))"

definition get_guid_auto_new :: "(nat \<Rightarrow> attempt_new) \<Rightarrow> nat \<Rightarrow> gevent list \<times> string option" where
  "get_guid_auto_new env max_attempts = new_attempts env max_attempts [1..<max_attempts + 1]"

section \<open>Strategy B: the raw trace scan\<close>

text \<open>
  The \<open>while\<close> loop of \<open>parse_tracev3_structure\<close> for one pattern:
  \<open>data.find(pattern, pos)\<close> and then \<open>pos += len(pattern)\<close>, so the occurrences are
  found left to right and do not overlap.
\<close>

fun find_all_from :: "string \<Rightarrow> nat \<Rightarrow> nat \<Rightarrow> string \<Rightarrow> nat list" where
  "find_all_from pattern off skip [] = []"
| "find_all_from pattern off skip (c # cs) =
     (if 0 < skip then find_all_from pattern (Suc off) (skip - 1) cs
      else if prefix pattern (c # cs)
           then off # find_all_from pattern (Suc off) (length pattern - 1) cs
           else find_all_from pattern (Suc off) 0 cs)"

definition db_patterns :: "string list" where
  "db_patterns =
     [''BLDatabaseManager'',
      ''BLDatabase'',
      ''BLDatabaseManager.sqlite'',
      ''bookassetd [Database]: Store is at file:///private/var/containers/Shared/SystemGroup'']"

text \<open>The signatures are the pairs (pattern, pos); their constant first component
  \<open>'string'\<close> is left out.\<close>

definition parse_tracev3_structure :: "string \<Rightarrow> (string \<times> nat) list" where
  "parse_tracev3_structure data =
     concat (map (\<lambda>pattern. map (\<lambda>pos. (pattern, pos)) (find_all_from pattern 0 0 data))
               db_patterns)"

text \<open>\<open>confirm_guid_manual\<close> answers \<open>"y"\<close> without asking.\<close>

definition confirm_guid_manual :: "string \<Rightarrow> string" where
  "confirm_guid_manual g = ''y''"

datatype confidence = HIGH | MEDIUM | LOW

text \<open>What one attempt of Strategy B meets: the result of the collect command, the
  bytes of the trace file (\<open>None\<close> when the file is missing), and for the recovery
  after a failed attempt the answers of \<open>reboot_device\<close> and of the
  \<open>ideviceinfo\<close> call of \<open>detect_device\<close>.\<close>

record attempt_legacy =
  collect :: cmd_result
  trace_file :: "string option"
  reboot_ok_legacy :: bool
  device_found :: bool

definition get_guid_enhanced :: "attempt_legacy \<Rightarrow> string option" where
  "get_guid_enhanced a =
     (case collect a of (code, out, err) \<Rightarrow>
        if code \<noteq> 0 then None
        else (case trace_file a of
                None \<Rightarrow> None
              | Some data \<Rightarrow>
                  let signatures = parse_tracev3_structure data;
                      all_candidates =
                        concat (map (\<lambda>(pattern, pos).
                                       if pattern = ''BLDatabaseManager''
                                       then extract_guid_candidates data (int pos) 512
                                       else [])
                                  signatures)
                  in if all_candidates = [] then None
                     else (case analyze_guid_confidence all_candidates of
                             None \<Rightarrow> None
                           | Some [] \<Rightarrow> None
                           | Some ((best_guid, best_score, best_count) # _) \<Rightarrow>
                               let confidence =
                                     (if 30 \<le> best_score then HIGH
                                      else if 15 \<le> best_score then MEDIUM
                                      else LOW)
                               in if confidence \<in> {LOW, MEDIUM}
                                     \<and> confirm_guid_manual best_guid = []
                                  then None
                                  else Some best_guid)))"

text \<open>How a call ends: it returns, or \<open>detect_device\<close> has called
  \<open>sys.exit(1)\<close>.\<close>

datatype guid_outcome = Returned "string option" | SysExit

text \<open>
  \<open>get_guid_auto_with_retry\<close>: the loop \<open>while self.attempt_count < self.max_attempts\<close>.
  \<open>get_guid_enhanced\<close> increments the counter first, so attempt \<open>n + 1\<close> meets
  \<open>env (n + 1)\<close>.
\<close>

function retry_loop :: "(nat \<Rightarrow> attempt_legacy) \<Rightarrow> nat \<Rightarrow> nat \<Rightarrow> gevent list \<times> guid_outcome" where
  "retry_loop env max_attempts attempt_count =
     (if attempt_count < max_attempts then
        (if truthy (get_guid_enhanced (env (attempt_count + 1)))
         then ([TryLegacy (attempt_count + 1)],
               Returned (get_guid_enhanced (env (attempt_count + 1))))
         else if attempt_count + 1 < max_attempts then
           (if \<not> device_found (env (attempt_count + 1))
            then ([TryLegacy (attempt_count + 1), RebootDevice, DetectDevice], SysExit)
            else ([TryLegacy (attempt_count + 1), RebootDevice, DetectDevice]
                    @ fst (retry_loop env max_attempts (attempt_count + 1)),
                  snd (retry_loop env max_attempts (attempt_count + 1))))
         else (TryLegacy (attempt_count + 1) # fst (retry_loop env max_attempts (attempt_count + 1)),
               snd (retry_loop env max_attempts (attempt_count + 1))))
      else ([], Returned None))"
  by pat_completeness auto
termination
  by (relation "measure (\<lambda>(env, max_attempts, attempt_count). max_attempts - attempt_count)") auto

text \<open>The equation of the loop is applied by hand: as a rewrite rule it would unfold
  without end.\<close>

declare retry_loop.simps [simp del]

text \<open>\<open>self.max_attempts = 5\<close>, set once in the constructor.\<close>

definition self_max_attempts :: nat where
  "self_max_attempts = 5"

definition get_guid_auto_with_retry :: "(nat \<Rightarrow> attempt_legacy) \<Rightarrow> gevent list \<times> guid_outcome" where
  "get_guid_auto_with_retry env = retry_loop env self_max_attempts 0"

section \<open>The acquisition engine\<close>

record engine_env =
  new_env :: "nat \<Rightarrow> attempt_new"
  legacy_env :: "nat \<Rightarrow> attempt_legacy"

definition get_guid_auto :: "engine_env \<Rightarrow> gevent list \<times> guid_outcome" where
  "get_guid_auto env =
     (case get_guid_auto_new (new_env env) 3 of (ev, g) \<Rightarrow>
        if truthy g then (ev, Returned g)
        else (ev @ [Fallback] @ fst (get_guid_auto_with_retry (legacy_env env)),
              snd (get_guid_auto_with_retry (legacy_env env))))"

section \<open>Inputs and specification-side readings used by the theorems\<close>

text \<open>
  The window of the Candidate Extractor in the words of the specification: \<open>w\<close> bytes
  in all, centred on \<open>p\<close> (half of them on each side), clipped to the data.
\<close>

definition spec_window :: "string \<Rightarrow> int \<Rightarrow> int \<Rightarrow> string" where
  "spec_window data p w =
     (let lo = max 0 (p - w div 2);
          hi = min (int (length data)) (p + w div 2)
      in take (nat (hi - lo)) (drop (nat lo) data))"

text \<open>A GUID followed by filler bytes; \<open>data2\<close> differs from \<open>data1\<close> in its last
  byte only.\<close>

definition data0 :: string where
  "data0 = ''2A22A82B-C342-444D-972F-5270FB5080DF'' @ replicate 36 CHR ''x''"

definition data1 :: string where
  "data1 = ''2A22A82B-C342-444D-972F-5270FB5080DF'' @ replicate 44 CHR ''x''"

definition data2 :: string where
  "data2 = ''2A22A82B-C342-444D-972F-5270FB5080DF'' @ replicate 43 CHR ''x'' @ ''y''"

text \<open>An output of \<open>log show\<close> of two lines: both hold the marker filename, only the
  second holds a GUID.\<close>

definition stdout0 :: string where
  "stdout0 = ''bookassetd: opening BLDatabaseManager.sqlite'' @ [CHR 0x0A]
     @ ''bookassetd: file:///SystemGroup/2a22a82b-c342-444d-972f-5270fb5080df/Documents/BLDatabaseManager/BLDatabaseManager.sqlite''"

definition line0 :: string where
  "line0 = ''id 2a22a82b-c342-444d-972f-5270fb5080df BLDatabaseManager.sqlite''"

text \<open>The two kinds of outer attempt in a trace of the engine.\<close>

fun is_try_new :: "gevent \<Rightarrow> bool" where
  "is_try_new (TryNew n) = True"
| "is_try_new e = False"

fun is_try_legacy :: "gevent \<Rightarrow> bool" where
  "is_try_legacy (TryLegacy n) = True"
| "is_try_legacy e = False"

text \<open>
  Three worlds for the engine. In \<open>env0\<close> every reboot of Strategy A fails and every
  collection of Strategy B fails. \<open>attempt_new0\<close> is an attempt of Strategy A whose
  archive query answers \<open>stdout0\<close>; \<open>attempt_legacy0\<close> is an attempt of Strategy
  B whose trace file holds a GUID before two occurrences of the marker.
\<close>

definition env0 :: engine_env where
  "env0 = \<lparr>new_env = (\<lambda>n. \<lparr>reboot_ok = False, reconnected = False, archive_ok = False,
                              log_tool_found = False, log_show = (1, [], [])\<rparr>),
            legacy_env = (\<lambda>n. \<lparr>collect = (1, [], []), trace_file = None,
                                 reboot_ok_legacy = True, device_found = True\<rparr>)\<rparr>"

definition attempt_new0 :: attempt_new where
  "attempt_new0 = \<lparr>reboot_ok = True, reconnected = True, archive_ok = True,
                    log_tool_found = True, log_show = (0, stdout0, [])\<rparr>"

definition attempt_legacy0 :: attempt_legacy where
  "attempt_legacy0 =
     \<lparr>collect = (0, [], []),
      trace_file = Some ''SystemGroup/2a22a82b-c342-444d-972f-5270fb5080df/Documents/BLDatabaseManager/BLDatabaseManager.sqlite'',
      reboot_ok_legacy = True, device_found = True\<rparr>"

section \<open>Device file transfer\<close>

text \<open>
  \<open>rm_file\<close>: the statement \<open>code, _, _ = self._run_cmd(...)\<close> binds \<open>_\<close> twice, from
  left to right, so that \<open>_\<close> is the captured stderr when \<open>"ENOENT" in _\<close> is
  evaluated. The argument is the result of the \<open>afc rm\<close> command.
\<close>

definition rm_file :: "cmd_result \<Rightarrow> bool" where
  "rm_file res = (case res of (code, out, err) \<Rightarrow> code = 0 \<or> py_in ''ENOENT'' err)"

text \<open>
  The cleanup loop of \<open>Hacktivating\<close> runs the same \<open>afc rm\<close> command and sorts its
  result into three reports: removed, a warning, or "not present -- OK".
\<close>

datatype removal_report = Removed | RemovalWarning | NotPresentOK

definition cleanup_report :: "cmd_result \<Rightarrow> removal_report" where
  "cleanup_report res =
     (case res of (code, out, err) \<Rightarrow>
        if code = 0 then Removed
        else if \<not> py_in ''ENOENT'' err \<and> \<not> py_in ''No such file'' err then RemovalWarning
        else NotPresentOK)"

section \<open>Activation workflow\<close>

text \<open>
  \<open>s.split(sep)[0]\<close> and \<open>s.split(sep)[1]\<close> for a non-empty separator: the text before
  the first occurrence of \<open>sep\<close>, and the text between its first and second occurrence;
  the latter raises \<open>IndexError\<close> when \<open>sep\<close> does not occur.
\<close>

fun before_sub :: "string \<Rightarrow> string \<Rightarrow> string" where
  "before_sub sep [] = []"
| "before_sub sep (c # cs) = (if prefix sep (c # cs) then [] else c # before_sub sep cs)"

fun after_sub :: "string \<Rightarrow> string \<Rightarrow> string option" where
  "after_sub sep [] = None"
| "after_sub sep (c # cs) =
     (if prefix sep (c # cs) then Some (drop (length sep) (c # cs)) else after_sub sep cs)"

definition split_second :: "string \<Rightarrow> string \<Rightarrow> py_error + string" where
  "split_second sep s =
     (case after_sub sep s of
        None \<Rightarrow> Inl IndexError
      | Some rest \<Rightarrow> Inr (before_sub sep rest))"

text \<open>\<open>output.split(field)[1].split("\n")[0]\<close>.\<close>

definition parse_field :: "string \<Rightarrow> string \<Rightarrow> py_error + string" where
  "parse_field field output =
     (case split_second field output of
        Inl e \<Rightarrow> Inl e
      | Inr rest \<Rightarrow> Inr (before_sub [CHR 0x0A] rest))"

text \<open>
  What the workflow does to the world outside it, in order: the progress it reports,
  the calls to the engine, the payload directory and the downloader, the database
  handle it opens and closes, and the device commands it issues.
\<close>

datatype action =
    SetProgress nat
  | AcquireGuid
  | GetUrls string "string option" string
  | Preload string string
  | Download string string
  | DbConnect
  | DbClose
  | RmFile string
  | PushFile string string
  | PullFile string string
  | CleanupRm string
  | Reboot
  | ShowDone

datatype failure =
    ConnectFailed | ParseFailed | UrlsFailed | DownloadFailed | InvalidPayload | UploadFailed

text \<open>A run ends with the last stage done, with a terminal failure (the \<open>return\<close> after
  a failure message), or with an exception or \<open>SystemExit\<close> that nothing catches.\<close>

datatype outcome = Done | Failed failure | Crashed

type_synonym run = "action list \<times> outcome"

text \<open>
  The downloaded file as the queries of the ValidatePayload stage see it:
  whether \<open>sqlite3.connect\<close> returns a handle, the count that the query on
  \<open>sqlite_master\<close> returns, the count of rows of the asset table, and whether the
  rows can be read; \<open>None\<close> is a query that raises.
\<close>

record payload_db =
  connect_ok :: bool
  asset_tables :: "nat option"
  asset_rows :: "nat option"
  rows_readable :: bool

text \<open>The answers of the collaborators to one run of the workflow.\<close>

record world =
  ideviceinfo_output :: string
  engine :: engine_env
  urls :: "string option \<times> string option \<times> string option"
  final_download :: "string option"
  db :: payload_db
  push_db_ok :: bool
  pull1_ok :: bool
  pull2_ok :: bool

definition stale_files :: "string list" where
  "stale_files =
     [''/Downloads/downloads.28.sqlitedb'',
      ''/Downloads/downloads.28.sqlitedb-wal'',
      ''/Downloads/downloads.28.sqlitedb-shm'',
      ''/Books/asset.epub'',
      ''/Books/iTunesMetadata.plist'',
      ''/iTunes_Control/iTunes/iTunesMetadata.plist'',
      ''/iTunes_Control/iTunes/iTunesMetadata.plist.ext'']"

definition cleanup_files :: "string list" where
  "cleanup_files =
     [''/Downloads/downloads.28.sqlitedb-wal'',
      ''/Downloads/downloads.28.sqlitedb-shm'',
      ''/Books/asset.epub'',
      ''/Books/iTunesMetadata.plist'',
      ''/iTunes_Control/iTunes/iTunesMetadata.plist'',
      ''/iTunes_Control/iTunes/iTunesMetadata.plist.ext'']"

text \<open>The stages after a confirmed upload, none of which can end the run early:
  cleanup, the two plist relocation rounds, the hold and the final reboot.\<close>

definition relocation_stages :: "world \<Rightarrow> action list" where
  "relocation_stages w =
     [SetProgress 60] @ map CleanupRm cleanup_files
     @ [SetProgress 65, Reboot,
        PullFile ''/iTunes_Control/iTunes/iTunesMetadata.plist'' ''temp_plist_copy.plist'']
     @ (if pull1_ok w
        then [PushFile ''temp_plist_copy.plist'' ''/Books/iTunesMetadata.plist'']
        else [])
     @ [SetProgress 75, Reboot, SetProgress 85,
        PullFile ''/Books/iTunesMetadata.plist'' ''temp_plist_copy.plist'']
     @ (if pull2_ok w
        then [PushFile ''temp_plist_copy.plist'' ''/iTunes_Control/iTunes/iTunesMetadata.plist'']
        else [])
     @ [SetProgress 90, SetProgress 100, Reboot, ShowDone]"

text \<open>DeployPayload and what follows it.\<close>

definition deploy_stages :: "world \<Rightarrow> string \<Rightarrow> run" where
  "deploy_stages w full_db_path =
     (if \<not> push_db_ok w
      then (map RmFile stale_files @ [PushFile full_db_path ''/Downloads/downloads.28.sqlitedb''],
            Failed UploadFailed)
      else (map RmFile stale_files @ [PushFile full_db_path ''/Downloads/downloads.28.sqlitedb'']
              @ relocation_stages w,
            Done))"

text \<open>
  The body of the \<open>try\<close> block of the ValidatePayload stage, after
  \<open>sqlite3.connect\<close> has returned: \<open>Inl\<close> is an exception, raised by the stage itself
  (no asset table, no records) or by a query.
\<close>

definition check_asset_table :: "payload_db \<Rightarrow> py_error + nat" where
  "check_asset_table d =
     (case asset_tables d of
        None \<Rightarrow> Inl OtherError
      | Some t \<Rightarrow>
          if t = 0 then Inl OtherError
          else (case asset_rows d of
                  None \<Rightarrow> Inl OtherError
                | Some count' \<Rightarrow>
                    if count' = 0 then Inl OtherError
                    else if \<not> rows_readable d then Inl OtherError
                    else Inr count'))"

text \<open>
  ValidatePayload and what follows it. When \<open>sqlite3.connect\<close> itself raises, the
  \<open>except\<close> branch returns and the \<open>finally\<close> clause then reads the unbound name
  \<open>conn\<close>, which raises in turn: the run ends with that exception, and there is no
  handle to close. Otherwise \<open>conn.close()\<close> runs on every way out of the stage.
\<close>

definition payload_stages :: "world \<Rightarrow> string \<Rightarrow> run" where
  "payload_stages w full_db_path =
     (if \<not> connect_ok (db w) then ([], Crashed)
      else (case check_asset_table (db w) of
              Inl e \<Rightarrow> ([DbConnect, DbClose], Failed InvalidPayload)
            | Inr count' \<Rightarrow>
                ([DbConnect, DbClose, SetProgress 50] @ fst (deploy_stages w full_db_path),
                 snd (deploy_stages w full_db_path))))"

text \<open>
  The stages up to DownloadFinalPayload: they end the run (\<open>Inl\<close>), or hand the path
  of the downloaded file to ValidatePayload (\<open>Inr\<close>). The result of
  \<open>get_guid_auto\<close> is passed on to \<open>get_all_urls_from_server\<close> as it is; the three
  results of \<open>preload_stage\<close> are not looked at. \<open>all([...])\<close> holds only when the
  three locators are strings and none is empty, so the last case is never taken.
\<close>

definition download_stages :: "world \<Rightarrow> action list \<times> (outcome + string)" where
  "download_stages w =
     (let output = ideviceinfo_output w in
      if py_in ''ERROR: No device found!'' output then ([SetProgress 10], Inl (Failed ConnectFailed))
      else if \<not> py_in ''ProductType'' output then ([SetProgress 10], Inl (Failed ConnectFailed))
      else (case parse_field ''ProductType: '' output of
              Inl e \<Rightarrow> ([SetProgress 10], Inl (Failed ParseFailed))
            | Inr prd \<Rightarrow>
               (case parse_field ''SerialNumber: '' output of
                  Inl e \<Rightarrow> ([SetProgress 10], Inl (Failed ParseFailed))
                | Inr sn \<Rightarrow>
                   (case snd (get_guid_auto (engine w)) of
                      SysExit \<Rightarrow> ([SetProgress 10, AcquireGuid], Inl Crashed)
                    | Returned g \<Rightarrow>
                       (if \<not> (truthy (fst (urls w)) \<and> truthy (fst (snd (urls w)))
                               \<and> truthy (snd (snd (urls w))))
                        then ([SetProgress 10, AcquireGuid, SetProgress 20, GetUrls prd g sn],
                              Inl (Failed UrlsFailed))
                        else
                          (case urls w of
                             (Some stage1_url, Some stage2_url, Some stage3_url) \<Rightarrow>
                               (case final_download w of
                                  None \<Rightarrow>
                                    ([SetProgress 10, AcquireGuid, SetProgress 20,
                                      GetUrls prd g sn, SetProgress 30,
                                      Preload ''stage1'' stage1_url,
                                      Preload ''stage2'' stage2_url,
                                      Preload ''stage3'' stage3_url,
                                      SetProgress 35,
                                      Download stage3_url ''downloads.28.sqlitedb''],
                                     Inl (Failed DownloadFailed))
                                | Some full_db_path \<Rightarrow>
                                    ([SetProgress 10, AcquireGuid, SetProgress 20,
                                      GetUrls prd g sn, SetProgress 30,
                                      Preload ''stage1'' stage1_url,
                                      Preload ''stage2'' stage2_url,
                                      Preload ''stage3'' stage3_url,
                                      SetProgress 35,
                                      Download stage3_url ''downloads.28.sqlitedb'',
                                      SetProgress 45],
                                     Inr full_db_path))
                           | _ \<Rightarrow>
                               ([SetProgress 10, AcquireGuid, SetProgress 20, GetUrls prd g sn],
                                Inl (Failed UrlsFailed))))))))"

definition Hacktivating :: "world \<Rightarrow> run" where
  "Hacktivating w =
     (case download_stages w of
        (acts, Inl out) \<Rightarrow> (acts, out)
      | (acts, Inr full_db_path) \<Rightarrow>
          (acts @ fst (payload_stages w full_db_path), snd (payload_stages w full_db_path)))"

text \<open>The stages that come after AcquireGuid, and the actions of the deployment.\<close>

fun later_stage :: "action \<Rightarrow> bool" where
  "later_stage (SetProgress n) = (20 < n)"
| "later_stage AcquireGuid = False"
| "later_stage a = True"

fun deploys :: "action \<Rightarrow> bool" where
  "deploys (RmFile f) = True"
| "deploys (PushFile l r) = True"
| "deploys (PullFile r l) = True"
| "deploys (CleanupRm f) = True"
| "deploys Reboot = True"
| "deploys ShowDone = True"
| "deploys a = False"

text \<open>
  Three worlds for the workflow. In \<open>world_no_guid\<close> the device answers, the engine
  finds no GUID (\<open>env0\<close>) and everything after it succeeds. \<open>world_empty_assets\<close>
  differs in that the engine finds a GUID at its first attempt and the downloaded
  database has an asset table with no rows.
\<close>

definition device_output :: string where
  "device_output = ''ProductType: iPad1,2'' @ [CHR 0x0A] @ ''SerialNumber: ABC123'' @ [CHR 0x0A]"

definition good_db :: payload_db where
  "good_db = \<lparr>connect_ok = True, asset_tables = Some 1, asset_rows = Some 1, rows_readable = True\<rparr>"

definition world_no_guid :: world where
  "world_no_guid =
     \<lparr>ideviceinfo_output = device_output,
      engine = env0,
      urls = (Some ''u1'', Some ''u2'', Some ''u3''),
      final_download = Some ''downloads.28.sqlitedb'',
      db = good_db,
      push_db_ok = True, pull1_ok = True, pull2_ok = True\<rparr>"

definition world_empty_assets :: world where
  "world_empty_assets =
     world_no_guid
       \<lparr>engine := \<lparr>new_env = (\<lambda>n. attempt_new0), legacy_env = legacy_env env0\<rparr>,
        db := good_db\<lparr>asset_rows := Some 0\<rparr>\<rparr>"

section \<open>Properties of the validator\<close>

lemma split_char_nonempty: "split_char c s \<noteq> []"
  by (induction s) (auto split: list.splits)

lemma split_char_no_sep: "c \<notin> set a \<Longrightarrow> split_char c a = [a]"
  by (induction a) auto

lemma split_char_append:
  "c \<notin> set a \<Longrightarrow> split_char c (a @ c # b) = a # split_char c b"
  by (induction a) auto

lemma split_char_groups: "p \<in> set (split_char c s) \<Longrightarrow> c \<notin> set p"
proof (induction s arbitrary: p)
  case Nil
  then show ?case by simp
next
  case (Cons x xs)
  show ?case
  proof (cases "x = c")
    case True
    with Cons show ?thesis by auto
  next
    case False
    obtain q qs where q: "split_char c xs = q # qs"
      using split_char_nonempty [of c xs] by (cases "split_char c xs") auto
    with Cons False show ?thesis by auto
  qed
qed

lemma split_char_five:
  "split_char c s = [p0, p1, p2, p3, p4] \<Longrightarrow>
     s = p0 @ c # p1 @ c # p2 @ c # p3 @ c # p4"
proof -
  have join: "\<And>ps. split_char c s = ps \<Longrightarrow> s = foldr (\<lambda>p r. p @ c # r) (butlast ps) (last ps)"
  proof (induction s)
    case Nil
    then show ?case by auto
  next
    case (Cons x xs)
    obtain q qs where q: "split_char c xs = q # qs"
      using split_char_nonempty [of c xs] by (cases "split_char c xs") auto
    from Cons.IH [OF q] have xs: "xs = foldr (\<lambda>p r. p @ c # r) (butlast (q # qs)) (last (q # qs))" .
    show ?case
    proof (cases "x = c")
      case True
      with Cons.prems q have "ps = [] # q # qs" by simp
      with xs True show ?thesis by simp
    next
      case False
      with Cons.prems q have ps: "ps = (x # q) # qs" by simp
      show ?thesis
      proof (cases qs)
        case Nil
        with xs ps show ?thesis by simp
      next
        case (Cons a list)
        with xs ps show ?thesis by simp
      qed
    qed
  qed
  assume "split_char c s = [p0, p1, p2, p3, p4]"
  from join [OF this] show ?thesis by simp
qed

lemma hyphen_not_hex: "CHR ''-'' \<notin> hex_chars"
  by (simp add: hex_chars_def)

lemma remove_hyphens_id: "CHR ''-'' \<notin> set g \<Longrightarrow> remove_hyphens g = g"
  by (induction g) (auto simp: remove_hyphens_def)

lemma remove_hyphens_append: "remove_hyphens (a @ b) = remove_hyphens a @ remove_hyphens b"
  by (simp add: remove_hyphens_def)

lemma remove_hyphens_Cons: "remove_hyphens (CHR ''-'' # b) = remove_hyphens b"
  by (simp add: remove_hyphens_def)

text \<open>The \<open>try\<close> block never raises: both subscripts are reached only after the length
  checks.\<close>

lemma validate_body_total: "validate_body s = Inr (validate_guid_structure s)"
  unfolding validate_guid_structure_def validate_body_def
  by (auto split: list.splits)

lemma validate_imp_shape:
  assumes "validate_guid_structure s"
  shows "guid_shape hex_chars (set ''89AB'') s"
proof -
  from assms obtain p0 p1 p2 p3 p4 where
    sp: "split_char CHR ''-'' s = [p0, p1, p2, p3, p4]"
    unfolding validate_guid_structure_def validate_body_def
    by (auto split: list.splits if_splits)
  from assms sp have len: "length p0 = 8" "length p1 = 4" "length p2 = 4" "length p3 = 4" "length p4 = 12"
    and hex: "list_all (\<lambda>c. c \<in> hex_chars) (remove_hyphens s)"
    and v: "hd p2 = CHR ''4''" and r: "hd p3 \<in> set ''89AB''"
    unfolding validate_guid_structure_def validate_body_def
    by (auto split: list.splits if_splits)
  have s: "s = p0 @ ''-'' @ p1 @ ''-'' @ p2 @ ''-'' @ p3 @ ''-'' @ p4"
    using split_char_five [OF sp] by simp
  have nh: "\<And>p. p \<in> set [p0, p1, p2, p3, p4] \<Longrightarrow> CHR ''-'' \<notin> set p"
    using split_char_groups [of _ "CHR ''-''" s] sp by simp
  have "remove_hyphens s = p0 @ p1 @ p2 @ p3 @ p4"
    by (subst s) (simp add: remove_hyphens_append remove_hyphens_Cons remove_hyphens_id nh)
  with hex have "set (p0 @ p1 @ p2 @ p3 @ p4) \<subseteq> hex_chars"
    by (simp add: list_all_iff subset_iff)
  with s len v r show ?thesis
    unfolding guid_shape_def by blast
qed

lemma shape_imp_validate:
  assumes "guid_shape hex_chars (set ''89AB'') s"
  shows "validate_guid_structure s"
proof -
  from assms obtain g1 g2 g3 g4 g5 where
    s: "s = g1 @ ''-'' @ g2 @ ''-'' @ g3 @ ''-'' @ g4 @ ''-'' @ g5"
    and len: "length g1 = 8" "length g2 = 4" "length g3 = 4" "length g4 = 4" "length g5 = 12"
    and hex: "set (g1 @ g2 @ g3 @ g4 @ g5) \<subseteq> hex_chars"
    and v: "hd g3 = CHR ''4''" and r: "hd g4 \<in> set ''89AB''"
    unfolding guid_shape_def by blast
  have nh: "CHR ''-'' \<notin> set g1" "CHR ''-'' \<notin> set g2" "CHR ''-'' \<notin> set g3"
    "CHR ''-'' \<notin> set g4" "CHR ''-'' \<notin> set g5"
    using hex hyphen_not_hex by auto
  have sp: "split_char CHR ''-'' s = [g1, g2, g3, g4, g5]"
    by (subst s) (simp add: split_char_append split_char_no_sep nh)
  have rh: "remove_hyphens s = g1 @ g2 @ g3 @ g4 @ g5"
    by (subst s) (simp add: remove_hyphens_append remove_hyphens_Cons remove_hyphens_id nh)
  from len obtain a as where g3: "g3 = a # as" by (cases g3) auto
  from len obtain b bs where g4: "g4 = b # bs" by (cases g4) auto
  have hexall: "list_all (\<lambda>c. c \<in> hex_chars) (remove_hyphens s)"
    using hex unfolding rh by (auto simp: list_all_iff)
  show ?thesis
    unfolding validate_guid_structure_def validate_body_def sp
    using len hexall v r g3 g4 by simp
qed

lemma validate_shape: "validate_guid_structure s \<longleftrightarrow> guid_shape hex_chars (set ''89AB'') s"
  using validate_imp_shape shape_imp_validate by blast

lemma validate_example: "validate_guid_structure ''2A22A82B-C342-444D-972F-5270FB5080DF''"
  by (simp add: validate_guid_structure_def validate_body_def hex_chars_def remove_hyphens_def)

text \<open>
  C1, as the code has it. \<open>validate_guid_structure s\<close> is true exactly when \<open>s\<close> is
  five groups of lengths 8-4-4-4-12 joined by hyphens, every character of the groups is
  one of \<open>0123456789ABCDEF\<close> (upper case only), the third group starts with \<open>4\<close> and
  the fourth with one of \<open>8\<close>, \<open>9\<close>, \<open>A\<close>, \<open>B\<close>; the body of its \<open>try\<close> block
  raises for no string, so every other string gives false.
\<close>

theorem validate_guid_structure_iff:
  "validate_body s = Inr (validate_guid_structure s)
   \<and> (validate_guid_structure s \<longleftrightarrow> guid_shape hex_chars (set ''89AB'') s)"
  using validate_body_total validate_imp_shape shape_imp_validate by blast

theorem validate_guid_structure_iff_witness:
  "validate_guid_structure ''2A22A82B-C342-444D-972F-5270FB5080DF''
   \<and> guid_shape hex_chars (set ''89AB'') ''2A22A82B-C342-444D-972F-5270FB5080DF''"
  using validate_guid_structure_iff [of "''2A22A82B-C342-444D-972F-5270FB5080DF''"]
    validate_example by simp

text \<open>
  C1 as stated fails: a GUID written with lower-case digits has the shape of the
  specification when the digits are read case-insensitively, and the validator
  rejects it.
\<close>

theorem validate_guid_structure_lowercase_counterexample:
  "guid_shape hex_chars_ci (set ''89AB'') ''2a22a82b-c342-444d-972f-5270fb5080df''
   \<and> \<not> validate_guid_structure ''2a22a82b-c342-444d-972f-5270fb5080df''"
proof
  show "guid_shape hex_chars_ci (set ''89AB'') ''2a22a82b-c342-444d-972f-5270fb5080df''"
    unfolding guid_shape_def
    apply (rule exI [of _ "''2a22a82b''"])
    apply (rule exI [of _ "''c342''"])
    apply (rule exI [of _ "''444d''"])
    apply (rule exI [of _ "''972f''"])
    apply (rule exI [of _ "''5270fb5080df''"])
    apply (simp add: hex_chars_ci_def)
    done
  show "\<not> validate_guid_structure ''2a22a82b-c342-444d-972f-5270fb5080df''"
    by (simp add: validate_guid_structure_def validate_body_def hex_chars_def remove_hyphens_def)
qed

section \<open>Properties of the scorer\<close>



lemma counter_add_present:
  "distinct (map fst acc) \<Longrightarrow> k \<in> fst ` set acc \<Longrightarrow> counter_add k acc = map (bump k) acc"
proof (induction acc)
  case Nil
  then show ?case by simp
next
  case (Cons e acc)
  obtain k' n where e: "e = (k', n)" by (cases e)
  show ?case
  proof (cases "k = k'")
    case True
    with Cons.prems e have "\<And>x. x \<in> set acc \<Longrightarrow> bump k x = x"
      by (force simp: bump_def)
    then have m: "map (bump k') acc = acc" using True by (simp add: map_idI)
    have b: "bump k' (k', n) = (k', Suc n)" by (simp add: bump_def)
    show ?thesis by (simp add: True e m b)
  next
    case False
    with Cons e show ?thesis by (auto simp: bump_def)
  qed
qed

lemma counter_add_absent:
  "k \<notin> fst ` set acc \<Longrightarrow> counter_add k acc = acc @ [(k, 1)]"
  by (induction acc) auto

lemma set_first_seen: "set (first_seen ks) = set ks"
  by (induction ks) auto

lemma distinct_first_seen: "distinct (first_seen ks)"
  by (induction ks) auto

lemma Counter_fold:
  "distinct (map fst acc) \<Longrightarrow>
   foldl (\<lambda>acc k. counter_add k acc) acc ks =
     map (\<lambda>e. (fst e, snd e + count_list ks (fst e))) acc
     @ map (\<lambda>k. (k, count_list ks k)) (filter (\<lambda>k. k \<notin> fst ` set acc) (first_seen ks))"
proof (induction ks arbitrary: acc)
  case Nil
  then show ?case by simp
next
  case (Cons x xs)
  show ?case
  proof (cases "x \<in> fst ` set acc")
    case True
    have ca: "counter_add x acc = map (bump x) acc"
      using counter_add_present [OF Cons.prems True] .
    have keys: "map fst (map (bump x) acc) = map fst acc"
      by (induction acc) (auto simp: bump_def)
    have d: "distinct (map fst (map (bump x) acc))" unfolding keys using Cons.prems .
    have ks: "fst ` set (map (bump x) acc) = fst ` set acc"
      using keys by (metis list.set_map)
    have t: "filter (\<lambda>k. k \<notin> fst ` set acc) (first_seen (x # xs))
           = filter (\<lambda>k. k \<notin> fst ` set acc) (first_seen xs)"
      using True by (auto intro!: filter_cong)
    have m1: "map (\<lambda>e. (fst e, snd e + count_list xs (fst e))) (map (bump x) acc)
            = map (\<lambda>e. (fst e, snd e + count_list (x # xs) (fst e))) acc"
      by (auto simp: bump_def)
    have m2: "map (\<lambda>k. (k, count_list xs k)) (filter (\<lambda>k. k \<notin> fst ` set acc) (first_seen xs))
            = map (\<lambda>k. (k, count_list (x # xs) k)) (filter (\<lambda>k. k \<notin> fst ` set acc) (first_seen xs))"
      using True by auto
    have "foldl (\<lambda>acc k. counter_add k acc) acc (x # xs)
        = foldl (\<lambda>acc k. counter_add k acc) (map (bump x) acc) xs"
      by (simp add: ca)
    also have "\<dots> = map (\<lambda>e. (fst e, snd e + count_list xs (fst e))) (map (bump x) acc)
        @ map (\<lambda>k. (k, count_list xs k))
            (filter (\<lambda>k. k \<notin> fst ` set (map (bump x) acc)) (first_seen xs))"
      by (rule Cons.IH [OF d])
    also have "\<dots> = map (\<lambda>e. (fst e, snd e + count_list (x # xs) (fst e))) acc
        @ map (\<lambda>k. (k, count_list (x # xs) k))
            (filter (\<lambda>k. k \<notin> fst ` set acc) (first_seen (x # xs)))"
      by (simp only: m1 ks m2 t)
    finally show ?thesis .
  next
    case False
    have ca: "counter_add x acc = acc @ [(x, 1)]"
      using counter_add_absent [OF False] .
    have d: "distinct (map fst (acc @ [(x, 1)]))" using Cons.prems False by auto
    have t: "filter (\<lambda>k. k \<notin> fst ` set acc) (first_seen (x # xs))
           = x # filter (\<lambda>k. k \<notin> fst ` set (acc @ [(x, 1)])) (first_seen xs)"
      using False by (auto intro!: filter_cong)
    have m1: "map (\<lambda>e. (fst e, snd e + count_list xs (fst e))) (acc @ [(x, 1)])
            = map (\<lambda>e. (fst e, snd e + count_list (x # xs) (fst e))) acc @ [(x, count_list (x # xs) x)]"
      using False by auto
    have m2: "map (\<lambda>k. (k, count_list xs k)) (filter (\<lambda>k. k \<notin> fst ` set (acc @ [(x, 1)])) (first_seen xs))
            = map (\<lambda>k. (k, count_list (x # xs) k)) (filter (\<lambda>k. k \<notin> fst ` set (acc @ [(x, 1)])) (first_seen xs))"
      by auto
    have "foldl (\<lambda>acc k. counter_add k acc) acc (x # xs)
        = foldl (\<lambda>acc k. counter_add k acc) (acc @ [(x, 1)]) xs"
      by (simp add: ca)
    also have "\<dots> = map (\<lambda>e. (fst e, snd e + count_list xs (fst e))) (acc @ [(x, 1)])
        @ map (\<lambda>k. (k, count_list xs k))
            (filter (\<lambda>k. k \<notin> fst ` set (acc @ [(x, 1)])) (first_seen xs))"
      by (rule Cons.IH [OF d])
    also have "\<dots> = map (\<lambda>e. (fst e, snd e + count_list (x # xs) (fst e))) acc
        @ map (\<lambda>k. (k, count_list (x # xs) k))
            (filter (\<lambda>k. k \<notin> fst ` set acc) (first_seen (x # xs)))"
      by (simp only: m1 m2 t list.map append_assoc append.simps)
    finally show ?thesis .
  qed
qed

lemma Counter_first_seen:
  "Counter ks = map (\<lambda>k. (k, count_list ks k)) (first_seen ks)"
  unfolding Counter_def using Counter_fold [of "[]" ks] by simp

lemma count_list_map_guid:
  "count_list (map guid cs) g = length (occurrences cs g)"
  by (induction cs) (auto simp: occurrences_def)

lemma score_guid_spec:
  "score_guid cs (g, length (occurrences cs g)) = scored_guid cs g"
  by (simp add: score_guid_def scored_guid_def spec_score_def occurrences_def Let_def
      filter_map comp_def)

lemma scored_entries:
  "map (score_guid cs) (Counter (map guid cs)) = map (scored_guid cs) (first_seen (map guid cs))"
  by (simp add: Counter_first_seen count_list_map_guid score_guid_spec comp_def)

lemma score_scored_guid: "fst (snd (scored_guid cs g)) = spec_score cs g"
  by (simp add: scored_guid_def)

lemma sorted_by_score_desc:
  "sorted_wrt (\<lambda>a b. fst (snd b) \<le> fst (snd a)) (sort_by_score_desc xs)"
proof -
  have "sorted (map (\<lambda>x. - fst (snd x)) (sort_by_score_desc xs))"
    unfolding sort_by_score_desc_def by (rule sorted_sort_key)
  then show ?thesis by (simp add: sorted_map)
qed

lemma sort_by_score_desc_stable:
  "filter (\<lambda>e. fst (snd e) = k) (sort_by_score_desc xs) = filter (\<lambda>e. fst (snd e) = k) xs"
proof -
  have "filter (\<lambda>e. - fst (snd e) = - k) (sort_by_score_desc xs)
      = filter (\<lambda>e. - fst (snd e) = - k) xs"
    unfolding sort_by_score_desc_def by (rule sort_key_stable)
  then show ?thesis by simp
qed

lemma mset_sort_by_score_desc: "mset (sort_by_score_desc xs) = mset xs"
  by (simp add: sort_by_score_desc_def)

lemma analyze_nonempty:
  "cs \<noteq> [] \<Longrightarrow> analyze_guid_confidence cs =
     Some (sort_by_score_desc (map (scored_guid cs) (first_seen (map guid cs))))"
  by (simp add: analyze_guid_confidence_def scored_entries)

text \<open>
  C4. For the empty list the scorer returns none. For a non-empty list it returns one
  entry for each distinct GUID value, holding the value, its score and its number of
  occurrences, where the score is 10 for each occurrence, plus 5 for each occurrence
  whose offset is closer than 100 to its marker, plus 3 for each occurrence with a
  negative offset. The entries are in descending order of score, and the entries of
  equal score are in the order in which their values are first seen in the input.
\<close>

theorem analyze_guid_confidence_ranked:
  "analyze_guid_confidence [] = None
   \<and> (cs \<noteq> [] \<longrightarrow>
        (\<exists>r. analyze_guid_confidence cs = Some r
           \<and> mset r = mset (map (scored_guid cs) (first_seen (map guid cs)))
           \<and> sorted_wrt (\<lambda>a b. fst (snd b) \<le> fst (snd a)) r
           \<and> (\<forall>k. filter (\<lambda>e. fst (snd e) = k) r
                  = map (scored_guid cs)
                      (filter (\<lambda>g. spec_score cs g = k) (first_seen (map guid cs))))))"
proof (intro conjI impI)
  show "analyze_guid_confidence [] = None"
    by (simp add: analyze_guid_confidence_def)
next
  assume ne: "cs \<noteq> []"
  let ?es = "map (scored_guid cs) (first_seen (map guid cs))"
  have ties: "filter (\<lambda>e. fst (snd e) = k) (sort_by_score_desc ?es)
            = map (scored_guid cs) (filter (\<lambda>g. spec_score cs g = k) (first_seen (map guid cs)))"
    for k
    by (simp add: sort_by_score_desc_stable filter_map comp_def score_scored_guid)
  show "\<exists>r. analyze_guid_confidence cs = Some r
           \<and> mset r = mset ?es
           \<and> sorted_wrt (\<lambda>a b. fst (snd b) \<le> fst (snd a)) r
           \<and> (\<forall>k. filter (\<lambda>e. fst (snd e) = k) r
                  = map (scored_guid cs)
                      (filter (\<lambda>g. spec_score cs g = k) (first_seen (map guid cs))))"
    using analyze_nonempty [OF ne] mset_sort_by_score_desc [of ?es]
      sorted_by_score_desc [of ?es] ties by blast
qed

theorem analyze_guid_confidence_ranked_witness:
  "[c1, c2] \<noteq> []
   \<and> (\<exists>r. analyze_guid_confidence [c1, c2] = Some r
           \<and> mset r = mset (map (scored_guid [c1, c2]) (first_seen (map guid [c1, c2])))
           \<and> sorted_wrt (\<lambda>a b. fst (snd b) \<le> fst (snd a)) r
           \<and> (\<forall>k. filter (\<lambda>e. fst (snd e) = k) r
                  = map (scored_guid [c1, c2])
                      (filter (\<lambda>g. spec_score [c1, c2] g = k) (first_seen (map guid [c1, c2])))))"
  using analyze_guid_confidence_ranked [of "[c1, c2]"] by blast

lemma length_filter_mset: "mset xs = mset ys \<Longrightarrow> length (filter P xs) = length (filter P ys)"
  by (metis mset_filter size_mset)

lemma scored_guid_mset:
  assumes "mset cs = mset cs'"
  shows "scored_guid cs g = scored_guid cs' g"
proof -
  have m: "mset (occurrences cs g) = mset (occurrences cs' g)"
    using assms by (simp add: occurrences_def)
  have l: "length (occurrences cs g) = length (occurrences cs' g)"
    by (rule mset_eq_length [OF m])
  have a: "length (filter (\<lambda>c. \<bar>position c\<bar> < 100) (occurrences cs g))
         = length (filter (\<lambda>c. \<bar>position c\<bar> < 100) (occurrences cs' g))"
    by (rule length_filter_mset [OF m])
  have b: "length (filter (\<lambda>c. position c < 0) (occurrences cs g))
         = length (filter (\<lambda>c. position c < 0) (occurrences cs' g))"
    by (rule length_filter_mset [OF m])
  show ?thesis
    by (simp add: scored_guid_def spec_score_def l a b)
qed

lemma set_analyze:
  "cs \<noteq> [] \<Longrightarrow> map_option set (analyze_guid_confidence cs)
     = Some (scored_guid cs ` guid ` set cs)"
  by (simp add: analyze_nonempty sort_by_score_desc_def set_first_seen)

text \<open>
  C7. Two candidate lists that are permutations of each other (the same multiset of
  candidates) give the same set of (value, score, occurrence count) results.
\<close>

theorem analyze_guid_confidence_order_independent:
  assumes "mset cs = mset cs'"
  shows "map_option set (analyze_guid_confidence cs) = map_option set (analyze_guid_confidence cs')"
proof (cases "cs = []")
  case True
  with assms have "cs' = []" by simp
  with True show ?thesis by simp
next
  case False
  with assms have ne: "cs' \<noteq> []" by auto
  have "set cs = set cs'" using assms by (rule mset_eq_setD)
  moreover have "\<And>g. scored_guid cs g = scored_guid cs' g"
    using assms by (rule scored_guid_mset)
  ultimately show ?thesis
    using set_analyze [OF False] set_analyze [OF ne] by auto
qed

theorem analyze_guid_confidence_order_independent_witness:
  "mset [c1, c2, c1] = mset [c2, c1, c1]
   \<and> map_option set (analyze_guid_confidence [c1, c2, c1])
     = map_option set (analyze_guid_confidence [c2, c1, c1])"
proof -
  have h: "mset [c1, c2, c1] = mset [c2, c1, c1]" by simp
  from analyze_guid_confidence_order_independent [OF h] h show ?thesis by blast
qed

section \<open>Properties of the pattern search\<close>

lemma match_here_length: "match_here pat xs \<Longrightarrow> length pat \<le> length xs"
  by (induction pat xs rule: match_here.induct) auto

lemma finditer_from_sound:
  "m \<in> set (finditer_from pat off skip xs) \<Longrightarrow>
     off \<le> m \<and> match_here pat (drop (m - off) xs) \<and> m - off < length xs"
proof (induction xs arbitrary: off skip)
  case Nil
  then show ?case by simp
next
  case (Cons c cs)
  show ?case
  proof (cases "m = off \<and> skip = 0 \<and> match_here pat (c # cs)")
    case True
    then show ?thesis by simp
  next
    case False
    with Cons.prems obtain k where "m \<in> set (finditer_from pat (Suc off) k cs)"
      by (auto split: if_splits)
    from Cons.IH [OF this]
    have "Suc off \<le> m" "match_here pat (drop (m - Suc off) cs)" "m - Suc off < length cs"
      by auto
    then show ?thesis by (auto simp: Suc_diff_le drop_Cons')
  qed
qed

lemma finditer_from_ascending: "sorted_wrt (<) (finditer_from pat off skip xs)"
proof (induction xs arbitrary: off skip)
  case Nil
  then show ?case by simp
next
  case (Cons c cs)
  have "\<And>k m. m \<in> set (finditer_from pat (Suc off) k cs) \<Longrightarrow> off < m"
    using finditer_from_sound [of _ pat "Suc off" _ cs] by fastforce
  with Cons show ?case by auto
qed

lemma finditer_from_first:
  "finditer_from pat off 0 xs = m # ms \<Longrightarrow> off \<le> j \<Longrightarrow> j < m \<Longrightarrow>
     \<not> match_here pat (drop (j - off) xs)"
proof (induction xs arbitrary: off)
  case Nil
  then show ?case by simp
next
  case (Cons c cs)
  show ?case
  proof (cases "match_here pat (c # cs)")
    case True
    with Cons.prems show ?thesis by simp
  next
    case False
    with Cons.prems have r: "finditer_from pat (Suc off) 0 cs = m # ms" by simp
    show ?thesis
    proof (cases "j = off")
      case True
      with False show ?thesis by simp
    next
      case False
      with Cons.prems have "Suc off \<le> j" by simp
      from Cons.IH [OF r this Cons.prems(3)] \<open>Suc off \<le> j\<close>
      show ?thesis by (simp add: Suc_diff_le drop_Cons')
    qed
  qed
qed

lemma finditer_from_none:
  "finditer_from pat off 0 xs = [] \<Longrightarrow> j < length xs \<Longrightarrow> \<not> match_here pat (drop j xs)"
proof (induction xs arbitrary: off j)
  case Nil
  then show ?case by simp
next
  case (Cons c cs)
  from Cons.prems have nm: "\<not> match_here pat (c # cs)" and r: "finditer_from pat (Suc off) 0 cs = []"
    by (auto split: if_splits)
  show ?case
  proof (cases j)
    case 0
    with nm show ?thesis by simp
  next
    case (Suc j')
    with Cons.prems Cons.IH [OF r, of j'] show ?thesis by simp
  qed
qed

text \<open>Every place where the pattern matches lies inside a match that was found.\<close>

lemma finditer_from_covers:
  "pat \<noteq> [] \<Longrightarrow> match_here pat (drop j xs) \<Longrightarrow> skip \<le> j \<Longrightarrow> j < length xs \<Longrightarrow>
     \<exists>m \<in> set (finditer_from pat off skip xs). m \<le> off + j \<and> off + j < m + length pat"
proof (induction xs arbitrary: off skip j)
  case Nil
  then show ?case by simp
next
  case (Cons c cs)
  note ne = \<open>pat \<noteq> []\<close>
  show ?case
  proof (cases "0 < skip")
    case True
    with Cons.prems obtain j' where j: "j = Suc j'" by (cases j) auto
    with Cons.prems True have "match_here pat (drop j' cs)" "skip - 1 \<le> j'" "j' < length cs"
      by auto
    from Cons.IH [OF ne this, of "Suc off"] True j show ?thesis by auto
  next
    case sk: False
    show ?thesis
    proof (cases "match_here pat (c # cs)")
      case True
      show ?thesis
      proof (cases "j < length pat")
        case True
        with \<open>match_here pat (c # cs)\<close> sk show ?thesis by auto
      next
        case False
        with ne obtain j' where j: "j = Suc j'" by (cases j) auto
        with Cons.prems False have "match_here pat (drop j' cs)" "length pat - 1 \<le> j'" "j' < length cs"
          by auto
        from Cons.IH [OF ne this, of "Suc off"] True sk j show ?thesis by auto
      qed
    next
      case False
      with Cons.prems obtain j' where j: "j = Suc j'" by (cases j) auto
      with Cons.prems have "match_here pat (drop j' cs)" "0 \<le> j'" "j' < length cs"
        by auto
      from Cons.IH [OF ne this, of "Suc off"] False sk j show ?thesis by auto
    qed
  qed
qed

lemma length_guid_pattern: "length guid_pattern = 36"
  by (simp add: guid_pattern_def)

lemma finditer_sound:
  "m \<in> set (finditer pat s) \<Longrightarrow> match_here pat (drop m s) \<and> m + length pat \<le> length s"
proof -
  assume "m \<in> set (finditer pat s)"
  then have a: "match_here pat (drop m s)" "m < length s"
    using finditer_from_sound [of m pat 0 0 s] by (auto simp: finditer_def)
  from match_here_length [OF a(1)] a(2) show ?thesis using a by simp
qed

section \<open>Properties of the extractor\<close>

lemma py_slice_inside:
  "0 \<le> i \<Longrightarrow> i \<le> int (length s) \<Longrightarrow> 0 \<le> j \<Longrightarrow> j \<le> int (length s) \<Longrightarrow>
     py_slice s i j = take (nat j - nat i) (drop (nat i) s)"
  by (simp add: py_slice_def Let_def min_def nat_diff_distrib')

lemma length_py_slice_inside:
  "0 \<le> i \<Longrightarrow> i \<le> int (length s) \<Longrightarrow> 0 \<le> j \<Longrightarrow> j \<le> int (length s) \<Longrightarrow>
     length (py_slice s i j) = nat j - nat i"
  by (simp add: py_slice_inside)

lemma take_drop_window:
  "m + k \<le> L \<Longrightarrow> take k (drop m (take L (drop a s))) = take k (drop (a + m) s)"
  by (simp add: drop_take min_def add.commute)

lemma extract_member:
  assumes c: "c \<in> set (extract_guid_candidates data p w)"
  obtains m where
    "m \<in> set (finditer guid_pattern (py_slice data (max 0 (p - w)) (min (int (length data)) (p + w))))"
    "guid c = py_upper (match_group guid_pattern (py_slice data (max 0 (p - w)) (min (int (length data)) (p + w))) m)"
    "position c = int m + max 0 (p - w) - p"
    "validate_guid_structure (guid c)"
  using c unfolding extract_guid_candidates_def Let_def by auto

lemma extract_candidate_inside:
  assumes pw: "0 \<le> p + w"
    and c: "c \<in> set (extract_guid_candidates data p w)"
  shows "validate_guid_structure (guid c)
       \<and> max 0 (p - w) \<le> p + position c
       \<and> p + position c + 36 \<le> min (int (length data)) (p + w)
       \<and> guid c = py_upper (py_slice data (p + position c) (p + position c + 36))"
proof -
  let ?start = "max 0 (p - w)" and ?end = "min (int (length data)) (p + w)"
  let ?cd = "py_slice data ?start ?end"
  from c obtain m where m: "m \<in> set (finditer guid_pattern ?cd)"
    and g: "guid c = py_upper (match_group guid_pattern ?cd m)"
    and pos: "position c = int m + ?start - p"
    and v: "validate_guid_structure (guid c)"
    by (rule extract_member)
  have e0: "0 \<le> ?end" "?end \<le> int (length data)" "0 \<le> ?start" using pw by auto
  from finditer_sound [OF m] have len: "m + 36 \<le> length ?cd"
    by (simp add: length_guid_pattern)
  have se: "?start \<le> int (length data)"
  proof (rule ccontr)
    assume "\<not> ?start \<le> int (length data)"
    then have "?cd = []" by (simp add: py_slice_def Let_def min_def max_def split: if_splits)
    with len show False by simp
  qed
  have cd: "?cd = take (nat ?end - nat ?start) (drop (nat ?start) data)"
    using py_slice_inside [OF e0(3) se e0(1) e0(2)] .
  from len cd have L: "m + 36 \<le> nat ?end - nat ?start" by simp
  then have in_end: "?start + int m + 36 \<le> ?end" using e0 by linarith
  have a: "p + position c = ?start + int m" using pos by simp
  have sl: "py_slice data (?start + int m) (?start + int m + 36)
          = take 36 (drop (nat ?start + m) data)"
  proof -
    have "py_slice data (?start + int m) (?start + int m + 36)
        = take (nat (?start + int m + 36) - nat (?start + int m)) (drop (nat (?start + int m)) data)"
      using e0 in_end by (intro py_slice_inside) linarith+
    moreover have "nat (?start + int m + 36) - nat (?start + int m) = 36" using e0 by linarith
    moreover have "nat (?start + int m) = nat ?start + m" using e0 by linarith
    ultimately show ?thesis by simp
  qed
  have "match_group guid_pattern ?cd m = take 36 (drop (nat ?start + m) data)"
    unfolding match_group_def length_guid_pattern cd
    by (rule take_drop_window [OF L])
  with g sl a have "guid c = py_upper (py_slice data (p + position c) (p + position c + 36))"
    by simp
  with v a in_end show ?thesis by simp
qed

lemma extract_positions_ascending:
  "sorted_wrt (<) (map position (extract_guid_candidates data p w))"
proof -
  have "sorted_wrt (<) (finditer guid_pattern s)" for s
    unfolding finditer_def by (rule finditer_from_ascending)
  then have "sorted_wrt (<) (filter P (finditer guid_pattern s))" for s P
    by (rule sorted_wrt_filter)
  then show ?thesis
    unfolding extract_guid_candidates_def Let_def
    by (simp add: sorted_wrt_map comp_def)
qed

lemma py_slice_cong:
  assumes len: "length s' = length s"
    and i: "0 \<le> i" and j: "0 \<le> j" "j \<le> int (length s)"
    and eq: "\<And>k. i \<le> int k \<Longrightarrow> int k < j \<Longrightarrow> s' ! k = s ! k"
  shows "py_slice s' i j = py_slice s i j"
proof (cases "i \<le> int (length s)")
  case False
  then show ?thesis using len by (simp add: py_slice_def Let_def min_def)
next
  case True
  have a: "py_slice s i j = take (nat j - nat i) (drop (nat i) s)"
    using py_slice_inside [OF i True j] .
  have b: "py_slice s' i j = take (nat j - nat i) (drop (nat i) s')"
    using py_slice_inside [of i s' j] i True j len by simp
  show ?thesis unfolding a b
  proof (rule nth_equalityI)
    show "length (take (nat j - nat i) (drop (nat i) s')) = length (take (nat j - nat i) (drop (nat i) s))"
      using len by simp
  next
    fix k assume k: "k < length (take (nat j - nat i) (drop (nat i) s'))"
    then have kk: "k < nat j - nat i" "nat i + k < length s" using len by auto
    then have "i \<le> int (nat i + k)" "int (nat i + k) < j" using i j by linarith+
    from eq [OF this] kk len show "take (nat j - nat i) (drop (nat i) s') ! k = take (nat j - nat i) (drop (nat i) s) ! k"
      by simp
  qed
qed

lemma extract_only_window:
  assumes "0 \<le> p + w" "length data' = length data"
    and "\<And>k. max 0 (p - w) \<le> int k \<Longrightarrow> int k < min (int (length data)) (p + w) \<Longrightarrow> data' ! k = data ! k"
  shows "extract_guid_candidates data' p w = extract_guid_candidates data p w"
proof -
  have "py_slice data' (max 0 (p - w)) (min (int (length data)) (p + w))
      = py_slice data (max 0 (p - w)) (min (int (length data)) (p + w))"
    using assms by (intro py_slice_cong) auto
  then show ?thesis
    unfolding extract_guid_candidates_def Let_def using assms(2) by simp
qed

lemma match_here_take: "match_here pat (take n xs) \<Longrightarrow> match_here pat xs"
proof (induction pat xs arbitrary: n rule: match_here.induct)
  case (3 k ks c cs)
  then show ?case by (cases n) auto
qed auto

lemma match_here_fits: "match_here pat xs \<Longrightarrow> length pat \<le> n \<Longrightarrow> match_here pat (take n xs)"
proof (induction pat xs arbitrary: n rule: match_here.induct)
  case (3 k ks c cs)
  then show ?case by (cases n) auto
qed auto

lemma finditer_from_lower:
  "m \<in> set (finditer_from pat off skip xs) \<Longrightarrow> off + skip \<le> m"
proof (induction xs arbitrary: off skip)
  case Nil
  then show ?case by simp
next
  case (Cons c cs)
  show ?case
  proof (cases "0 < skip")
    case True
    with Cons.prems have "m \<in> set (finditer_from pat (Suc off) (skip - 1) cs)" by simp
    from Cons.IH [OF this] True show ?thesis by simp
  next
    case False
    with Cons.prems have "m = off \<or> (\<exists>k. m \<in> set (finditer_from pat (Suc off) k cs))"
      by (auto split: if_splits)
    then show ?thesis using False Cons.IH by fastforce
  qed
qed

lemma finditer_from_spaced:
  "sorted_wrt (\<lambda>a b. a + length pat \<le> b) (finditer_from pat off skip xs)"
proof (induction xs arbitrary: off skip)
  case Nil
  then show ?case by simp
next
  case (Cons c cs)
  have "\<And>m. m \<in> set (finditer_from pat (Suc off) (length pat - 1) cs) \<Longrightarrow> off + length pat \<le> m"
    using finditer_from_lower [of _ pat "Suc off" "length pat - 1" cs] by fastforce
  with Cons show ?case by auto
qed

lemma extract_positions_spaced:
  "sorted_wrt (\<lambda>a b. a + 36 \<le> b) (map position (extract_guid_candidates data p w))"
proof -
  have "sorted_wrt (\<lambda>a b. a + 36 \<le> b) (finditer guid_pattern s)" for s
    unfolding finditer_def using finditer_from_spaced [of guid_pattern 0 0 s]
    by (simp add: length_guid_pattern)
  then have "sorted_wrt (\<lambda>a b. a + 36 \<le> b) (filter P (finditer guid_pattern s))" for s P
    by (rule sorted_wrt_filter)
  moreover have "(\<lambda>x y. int x + 36 \<le> int y) = (\<lambda>a b. a + 36 \<le> b)"
    by (intro ext) linarith
  ultimately show ?thesis
    unfolding extract_guid_candidates_def Let_def
    by (simp add: sorted_wrt_map comp_def)
qed

lemma extract_finds:
  assumes pw: "0 \<le> p + w"
    and lo: "max 0 (p - w) \<le> int i"
    and hi: "int i + 36 \<le> min (int (length data)) (p + w)"
    and mt: "match_here guid_pattern (drop i data)"
    and va: "validate_guid_structure (py_upper (take 36 (drop i data)))"
    and first: "\<forall>j. max 0 (p - w) \<le> int j \<and> j < i \<and> i < j + 36
                  \<longrightarrow> \<not> match_here guid_pattern (drop j data)"
  shows "\<exists>c \<in> set (extract_guid_candidates data p w).
           position c = int i - p \<and> guid c = py_upper (take 36 (drop i data))"
proof -
  define s where "s = max 0 (p - w)"
  define e where "e = min (int (length data)) (p + w)"
  let ?cd = "py_slice data s e"
  define a where "a = nat s"
  define L where "L = nat e - nat s"
  have e0: "0 \<le> s" "s \<le> int (length data)" "0 \<le> e" "e \<le> int (length data)"
    using pw lo hi by (auto simp: s_def e_def)
  have lo': "s \<le> int i" and hi': "int i + 36 \<le> e"
    using lo hi by (simp_all add: s_def e_def)
  have cd: "?cd = take L (drop a data)"
    unfolding a_def L_def using py_slice_inside [OF e0] .
  have ai: "a \<le> i" using lo' e0(1) unfolding a_def by linarith
  define k where "k = i - a"
  have ik: "i = a + k" using ai by (simp add: k_def)
  have kL: "k + 36 \<le> L" using hi' lo' e0 unfolding k_def a_def L_def by linarith
  have len: "length data \<ge> a + L" using e0 lo' hi' unfolding a_def L_def by linarith
  have dk: "drop k ?cd = take (L - k) (drop i data)"
    unfolding cd ik by (simp add: drop_take add.commute)
  have mk: "match_here guid_pattern (drop k ?cd)"
    unfolding dk using match_here_fits [OF mt, of "L - k"] kL
    by (simp add: length_guid_pattern)
  have klen: "k < length ?cd" unfolding cd using kL len by simp
  have ne: "guid_pattern \<noteq> []" using length_guid_pattern by auto
  from finditer_from_covers [OF ne mk _ klen, of 0 0]
  obtain m where m: "m \<in> set (finditer guid_pattern ?cd)" "m \<le> k" "k < m + 36"
    by (auto simp: finditer_def length_guid_pattern)
  have "m = k"
  proof (rule ccontr)
    assume "m \<noteq> k"
    with m have mk': "m < k" by simp
    from finditer_sound [OF m(1)] have "match_here guid_pattern (drop m ?cd)" by simp
    then have "match_here guid_pattern (take (L - m) (drop (a + m) data))"
      unfolding cd by (simp add: drop_take add.commute)
    then have "match_here guid_pattern (drop (a + m) data)" by (rule match_here_take)
    moreover have "max 0 (p - w) \<le> int (a + m)" using e0(1) unfolding a_def s_def [symmetric] by linarith
    moreover have "a + m < i" "i < a + m + 36" using mk' m ik by auto
    ultimately show False using first by blast
  qed
  with m have kin: "k \<in> set (finditer guid_pattern ?cd)" by simp
  have grp: "match_group guid_pattern ?cd k = take 36 (drop i data)"
    unfolding match_group_def length_guid_pattern cd ik
    by (rule take_drop_window [OF kL])
  let ?c = "\<lparr>guid = py_upper (match_group guid_pattern ?cd k),
            position = int k + s - p,
            context_excerpt = get_context_string ?cd k (k + length guid_pattern)\<rparr>"
  have vk: "validate_guid_structure (py_upper (match_group guid_pattern ?cd k))"
    using va grp by simp
  have "?c \<in> set (extract_guid_candidates data p w)"
    unfolding extract_guid_candidates_def Let_def s_def [symmetric] e_def [symmetric]
      set_map set_filter
    using kin vk by blast
  moreover have "position ?c = int i - p" using ik e0(1) by (simp add: a_def)
  moreover have "guid ?c = py_upper (take 36 (drop i data))" using grp by simp
  ultimately show ?thesis by blast
qed

lemma nth_padding:
  "k < length g + n \<Longrightarrow> (g @ replicate n x @ [y]) ! k = (g @ replicate (n + 1) x) ! k"
  by (auto simp: nth_append nth_Cons' simp del: replicate.simps)

text \<open>
  C6, as the code has it. Where \<open>p + w \<ge> 0\<close>, \<open>extract_guid_candidates\<close> examines
  the bytes from \<open>max(0, p - w)\<close> up to \<open>min(len(data), p + w)\<close>: \<open>w\<close> bytes on each
  side of \<open>p\<close>, so \<open>2w\<close> bytes in all where nothing is clipped.
  \<^item> Every candidate it returns passes the validator, lies wholly inside that window and
    is the upper-cased text found at its offset.
  \<^item> Every GUID-shaped text that lies wholly inside that window and passes the validator
    is returned, unless a GUID-shaped text that begins earlier in the window overlaps
    it.
  \<^item> The candidates are in ascending order of offset, and do not overlap.
  \<^item> The bytes outside the window have no influence on the result.
\<close>

theorem extract_guid_candidates_window:
  assumes "0 \<le> p + w"
  shows "(\<forall>c \<in> set (extract_guid_candidates data p w).
            validate_guid_structure (guid c)
          \<and> max 0 (p - w) \<le> p + position c
          \<and> p + position c + 36 \<le> min (int (length data)) (p + w)
          \<and> guid c = py_upper (py_slice data (p + position c) (p + position c + 36)))
       \<and> (\<forall>i. max 0 (p - w) \<le> int i
              \<and> int i + 36 \<le> min (int (length data)) (p + w)
              \<and> match_here guid_pattern (drop i data)
              \<and> validate_guid_structure (py_upper (take 36 (drop i data)))
              \<and> (\<forall>j. max 0 (p - w) \<le> int j \<and> j < i \<and> i < j + 36
                     \<longrightarrow> \<not> match_here guid_pattern (drop j data))
              \<longrightarrow> (\<exists>c \<in> set (extract_guid_candidates data p w).
                     position c = int i - p \<and> guid c = py_upper (take 36 (drop i data))))
       \<and> sorted_wrt (\<lambda>a b. a + 36 \<le> b) (map position (extract_guid_candidates data p w))
       \<and> (\<forall>data'. length data' = length data
             \<and> (\<forall>k. max 0 (p - w) \<le> int k \<and> int k < min (int (length data)) (p + w)
                    \<longrightarrow> data' ! k = data ! k)
             \<longrightarrow> extract_guid_candidates data' p w = extract_guid_candidates data p w)"
proof (intro conjI)
  show "\<forall>c \<in> set (extract_guid_candidates data p w).
            validate_guid_structure (guid c)
          \<and> max 0 (p - w) \<le> p + position c
          \<and> p + position c + 36 \<le> min (int (length data)) (p + w)
          \<and> guid c = py_upper (py_slice data (p + position c) (p + position c + 36))"
    using extract_candidate_inside [OF assms] by blast
  show "\<forall>i. max 0 (p - w) \<le> int i
              \<and> int i + 36 \<le> min (int (length data)) (p + w)
              \<and> match_here guid_pattern (drop i data)
              \<and> validate_guid_structure (py_upper (take 36 (drop i data)))
              \<and> (\<forall>j. max 0 (p - w) \<le> int j \<and> j < i \<and> i < j + 36
                     \<longrightarrow> \<not> match_here guid_pattern (drop j data))
              \<longrightarrow> (\<exists>c \<in> set (extract_guid_candidates data p w).
                     position c = int i - p \<and> guid c = py_upper (take 36 (drop i data)))"
    using extract_finds [OF assms, where data = data] by blast
  show "sorted_wrt (\<lambda>a b. a + 36 \<le> b) (map position (extract_guid_candidates data p w))"
    by (rule extract_positions_spaced)
  show "\<forall>data'. length data' = length data
             \<and> (\<forall>k. max 0 (p - w) \<le> int k \<and> int k < min (int (length data)) (p + w)
                    \<longrightarrow> data' ! k = data ! k)
             \<longrightarrow> extract_guid_candidates data' p w = extract_guid_candidates data p w"
    using extract_only_window [OF assms, of _ data] by blast
qed

lemma data12: "length data2 = length data1
   \<and> (\<forall>k. max 0 (36 - 36) \<le> int k \<and> int k < min (int (length data1)) (36 + 36)
          \<longrightarrow> data2 ! k = data1 ! k)"
proof (intro conjI allI impI)
  show "length data2 = length data1" by (simp add: data1_def data2_def)
next
  fix k :: nat
  assume "max 0 (36 - 36) \<le> int k \<and> int k < min (int (length data1)) (36 + 36)"
  then have "k < length ''2A22A82B-C342-444D-972F-5270FB5080DF'' + 43"
    by (simp add: data1_def)
  from nth_padding [OF this, of "CHR ''x''" "CHR ''y''"]
  show "data2 ! k = data1 ! k"
    unfolding data1_def data2_def by simp
qed

lemma data1_guid_at_0:
  "max 0 (36 - 36) \<le> int 0
   \<and> int 0 + 36 \<le> min (int (length data1)) (36 + 36)
   \<and> match_here guid_pattern (drop 0 data1)
   \<and> validate_guid_structure (py_upper (take 36 (drop 0 data1)))"
  by code_simp

text \<open>
  On \<open>data1\<close>, with the marker at offset 36 and \<open>w = 36\<close>: the GUID in the 36 bytes
  before the marker is returned, at offset -36, and \<open>data2\<close>, which differs from
  \<open>data1\<close> outside the window only, gives the same result.
\<close>

theorem extract_guid_candidates_window_witness:
  "(0::int) \<le> 36 + 36
   \<and> (\<exists>c \<in> set (extract_guid_candidates data1 36 36).
          position c = int 0 - 36 \<and> guid c = py_upper (take 36 (drop 0 data1))
        \<and> validate_guid_structure (guid c)
        \<and> max 0 (36 - 36) \<le> 36 + position c
        \<and> 36 + position c + 36 \<le> min (int (length data1)) (36 + 36)
        \<and> guid c = py_upper (py_slice data1 (36 + position c) (36 + position c + 36)))
   \<and> sorted_wrt (\<lambda>a b. a + 36 \<le> b) (map position (extract_guid_candidates data1 36 36))
   \<and> length data2 = length data1
   \<and> data2 \<noteq> data1
   \<and> extract_guid_candidates data2 36 36 = extract_guid_candidates data1 36 36"
proof -
  have h: "(0::int) \<le> 36 + 36" by simp
  have d: "data2 \<noteq> data1" by code_simp
  have none_before: "\<forall>j. max 0 (36 - 36) \<le> int j \<and> j < (0::nat) \<and> (0::nat) < j + 36
                        \<longrightarrow> \<not> match_here guid_pattern (drop j data1)"
    by simp
  note t = extract_guid_candidates_window [OF h, of data1]
  from t data1_guid_at_0 none_before
  obtain c where c: "c \<in> set (extract_guid_candidates data1 36 36)"
    "position c = int 0 - 36" "guid c = py_upper (take 36 (drop 0 data1))"
    by blast
  from t c(1) have inside: "validate_guid_structure (guid c)"
    "max 0 (36 - 36) \<le> 36 + position c"
    "36 + position c + 36 \<le> min (int (length data1)) (36 + 36)"
    "guid c = py_upper (py_slice data1 (36 + position c) (36 + position c + 36))"
    by blast+
  from t data12 have same: "extract_guid_candidates data2 36 36 = extract_guid_candidates data1 36 36"
    by blast
  from t have sp: "sorted_wrt (\<lambda>a b. a + 36 \<le> b) (map position (extract_guid_candidates data1 36 36))"
    by blast
  from data12 have len: "length data2 = length data1" by blast
  show ?thesis
    using h c inside same sp len d by blast
qed

text \<open>
  C6 as stated fails, in two ways. With \<open>w = 36\<close> and the marker at offset 36 the code
  returns the GUID that ends where the marker begins, 36 bytes before it, while a window
  of 36 bytes centred on the marker holds no GUID-shaped text at all. And with the
  marker at offset -1 and \<open>w = 0\<close> the window clipped to the data is empty, while the
  code, whose upper bound \<open>-1\<close> counts from the end of the data, returns the GUID at the
  start of the data.
\<close>

theorem extract_guid_candidates_window_counterexample:
  "map (\<lambda>c. (guid c, position c)) (extract_guid_candidates data0 36 36)
     = [(''2A22A82B-C342-444D-972F-5270FB5080DF'', -36)]
   \<and> finditer guid_pattern (spec_window data0 36 36) = []
   \<and> map (\<lambda>c. (guid c, position c)) (extract_guid_candidates data0 (-1) 0)
     = [(''2A22A82B-C342-444D-972F-5270FB5080DF'', 1)]
   \<and> spec_window data0 (-1) 0 = []"
  by code_simp

section \<open>Properties of the archive query\<close>

lemma scan_lines_find:
  "scan_lines ls =
     (case find (\<lambda>line. py_in BLDB_FILENAME line \<and> regex_search guid_pattern line \<noteq> None) ls of
        None \<Rightarrow> None
      | Some line \<Rightarrow> map_option py_upper (regex_search guid_pattern line))"
  by (induction ls) (auto split: option.splits)

lemma regex_search_leftmost:
  assumes "regex_search pat line = Some m"
  shows "\<exists>i. m = take (length pat) (drop i line) \<and> match_here pat (drop i line)
            \<and> (\<forall>j<i. \<not> match_here pat (drop j line))"
proof -
  from assms obtain i ms where f: "finditer pat line = i # ms"
    and m: "m = match_group pat line i"
    unfolding regex_search_def by (auto split: list.splits)
  have "i \<in> set (finditer pat line)" using f by simp
  from finditer_sound [OF this] have a: "match_here pat (drop i line)" by simp
  have "\<not> match_here pat (drop j line)" if "j < i" for j
    using finditer_from_first [of pat 0 line i ms j] f that by (simp add: finditer_def)
  with a m show ?thesis unfolding match_group_def by blast
qed

text \<open>
  C5, as the code has it. When the query tool is present and reports status 0, the
  candidate comes from the first output line that contains the marker filename and
  also holds a GUID-shaped match; marker lines without a match are passed over, and no
  line after the one that gave the candidate is consulted. The candidate is the
  leftmost match of that line, upper-cased. Without the tool, or with a non-zero status,
  there is no candidate.
\<close>

theorem extract_guid_from_archive_first_matching_line:
  "extract_guid_from_archive log_tool (code, stdout, stderr) =
     (if log_tool \<and> code = 0 then
        (case find (\<lambda>line. py_in BLDB_FILENAME line \<and> regex_search guid_pattern line \<noteq> None)
                (splitlines stdout) of
           None \<Rightarrow> None
         | Some line \<Rightarrow> map_option py_upper (regex_search guid_pattern line))
      else None)
   \<and> (\<forall>line m. regex_search guid_pattern line = Some m \<longrightarrow>
         (\<exists>i. m = take 36 (drop i line) \<and> match_here guid_pattern (drop i line)
              \<and> (\<forall>j<i. \<not> match_here guid_pattern (drop j line))))"
proof
  show "extract_guid_from_archive log_tool (code, stdout, stderr) =
     (if log_tool \<and> code = 0 then
        (case find (\<lambda>line. py_in BLDB_FILENAME line \<and> regex_search guid_pattern line \<noteq> None)
                (splitlines stdout) of
           None \<Rightarrow> None
         | Some line \<Rightarrow> map_option py_upper (regex_search guid_pattern line))
      else None)"
    unfolding extract_guid_from_archive_def by (simp add: scan_lines_find)
  show "\<forall>line m. regex_search guid_pattern line = Some m \<longrightarrow>
         (\<exists>i. m = take 36 (drop i line) \<and> match_here guid_pattern (drop i line)
              \<and> (\<forall>j<i. \<not> match_here guid_pattern (drop j line)))"
    using regex_search_leftmost [of guid_pattern] by (simp add: length_guid_pattern)
qed

lemma line0_search:
  "regex_search guid_pattern line0 = Some ''2a22a82b-c342-444d-972f-5270fb5080df''"
  by code_simp

theorem extract_guid_from_archive_first_matching_line_witness:
  "regex_search guid_pattern line0 = Some ''2a22a82b-c342-444d-972f-5270fb5080df''
   \<and> (\<exists>i. ''2a22a82b-c342-444d-972f-5270fb5080df'' = take 36 (drop i line0)
          \<and> match_here guid_pattern (drop i line0)
          \<and> (\<forall>j<i. \<not> match_here guid_pattern (drop j line0)))"
  using extract_guid_from_archive_first_matching_line [of True 0 stdout0 "[]"] line0_search
  by blast

text \<open>
  C5 as stated fails: the first line with the marker filename holds no GUID, the
  specification's reading gives no candidate, and the code returns the GUID of the
  second line.
\<close>

theorem extract_guid_from_archive_later_line_counterexample:
  "extract_guid_from_archive True (0, stdout0, [])
     = Some ''2A22A82B-C342-444D-972F-5270FB5080DF''
   \<and> first_marker_line_candidate stdout0 = None"
  by code_simp

section \<open>Properties of the acquisition engine\<close>

lemma new_attempts_Cons_cases:
  obtains (abort) "a = m" "new_attempts env m (a # as) = ([TryNew a], None)"
  | (found) g where "g \<noteq> []" "validate_guid_structure g"
      "new_attempts env m (a # as) = ([TryNew a], Some g)"
  | (continue)
      "new_attempts env m (a # as) =
         (TryNew a # fst (new_attempts env m as), snd (new_attempts env m as))"
proof (cases "reboot_ok (env a) \<and> reconnected (env a) \<and> archive_ok (env a)")
  case False
  show ?thesis
  proof (cases "a = m")
    case True
    with False have "new_attempts env m (a # as) = ([TryNew a], None)" by auto
    with True show ?thesis by (rule abort)
  next
    case ne: False
    with False have "new_attempts env m (a # as) =
         (TryNew a # fst (new_attempts env m as), snd (new_attempts env m as))" by auto
    then show ?thesis by (rule continue)
  qed
next
  case ok: True
  show ?thesis
  proof (cases "extract_guid_from_archive (log_tool_found (env a)) (log_show (env a))")
    case None
    with ok have "new_attempts env m (a # as) =
         (TryNew a # fst (new_attempts env m as), snd (new_attempts env m as))" by simp
    then show ?thesis by (rule continue)
  next
    case (Some g)
    show ?thesis
    proof (cases "g \<noteq> [] \<and> validate_guid_structure g")
      case True
      with ok Some have "new_attempts env m (a # as) = ([TryNew a], Some g)" by simp
      with True show ?thesis using found by blast
    next
      case False
      with ok Some have "new_attempts env m (a # as) =
         (TryNew a # fst (new_attempts env m as), snd (new_attempts env m as))" by auto
      then show ?thesis by (rule continue)
    qed
  qed
qed

lemma new_attempts_trace:
  "\<exists>k\<le>length as. fst (new_attempts env m as) = map TryNew (take k as)"
proof (induction as)
  case Nil
  then show ?case by simp
next
  case (Cons a as)
  then obtain k where k: "k \<le> length as" "fst (new_attempts env m as) = map TryNew (take k as)"
    by blast
  have one: "[TryNew a] = map TryNew (take 1 (a # as))" by simp
  have more: "TryNew a # fst (new_attempts env m as) = map TryNew (take (Suc k) (a # as))"
    using k by simp
  show ?case
  proof (cases rule: new_attempts_Cons_cases [of a m env as])
    case abort
    with one show ?thesis by (intro exI [of _ 1]) simp
  next
    case (found g)
    with one show ?thesis by (intro exI [of _ 1]) simp
  next
    case continue
    with more k show ?thesis by (intro exI [of _ "Suc k"]) simp
  qed
qed

lemma new_attempts_exhausted:
  "m \<notin> set (butlast as) \<Longrightarrow> snd (new_attempts env m as) = None \<Longrightarrow>
     fst (new_attempts env m as) = map TryNew as"
proof (induction as)
  case Nil
  then show ?case by simp
next
  case (Cons a as)
  show ?case
  proof (cases rule: new_attempts_Cons_cases [of a m env as])
    case abort
    with Cons.prems(1) have "as = []" by (cases as) auto
    with abort show ?thesis by simp
  next
    case (found g)
    with Cons.prems(2) show ?thesis by simp
  next
    case continue
    with Cons.prems(2) have n: "snd (new_attempts env m as) = None" by simp
    have "m \<notin> set (butlast as)" using Cons.prems(1) by (cases as) (auto split: if_splits)
    from Cons.IH [OF this n] continue show ?thesis by simp
  qed
qed

lemma new_attempts_result:
  "snd (new_attempts env m as) = Some g \<Longrightarrow> g \<noteq> [] \<and> validate_guid_structure g"
proof (induction as)
  case Nil
  then show ?case by simp
next
  case (Cons a as)
  show ?case
  proof (cases rule: new_attempts_Cons_cases [of a m env as])
    case abort
    with Cons.prems show ?thesis by simp
  next
    case (found g')
    with Cons.prems show ?thesis by simp
  next
    case continue
    with Cons show ?thesis by simp
  qed
qed

lemma retry_loop_stop: "\<not> c < m \<Longrightarrow> retry_loop env m c = ([], Returned None)"
  by (subst retry_loop.simps) simp

lemma retry_loop_found:
  "c < m \<Longrightarrow> truthy (get_guid_enhanced (env (c + 1))) \<Longrightarrow>
     retry_loop env m c = ([TryLegacy (c + 1)], Returned (get_guid_enhanced (env (c + 1))))"
  by (subst retry_loop.simps) simp

lemma retry_loop_exit:
  "c < m \<Longrightarrow> \<not> truthy (get_guid_enhanced (env (c + 1))) \<Longrightarrow> c + 1 < m \<Longrightarrow>
   \<not> device_found (env (c + 1)) \<Longrightarrow>
     retry_loop env m c = ([TryLegacy (c + 1), RebootDevice, DetectDevice], SysExit)"
  by (subst retry_loop.simps) simp

lemma retry_loop_again:
  "c < m \<Longrightarrow> \<not> truthy (get_guid_enhanced (env (c + 1))) \<Longrightarrow> c + 1 < m \<Longrightarrow>
   device_found (env (c + 1)) \<Longrightarrow>
     retry_loop env m c =
       ([TryLegacy (c + 1), RebootDevice, DetectDevice] @ fst (retry_loop env m (c + 1)),
        snd (retry_loop env m (c + 1)))"
  by (subst retry_loop.simps) simp

lemma retry_loop_last:
  "c < m \<Longrightarrow> \<not> truthy (get_guid_enhanced (env (c + 1))) \<Longrightarrow> \<not> c + 1 < m \<Longrightarrow>
     retry_loop env m c =
       (TryLegacy (c + 1) # fst (retry_loop env m (c + 1)), snd (retry_loop env m (c + 1)))"
  by (subst retry_loop.simps) simp

lemma retry_loop_cases:
  obtains (stop) "\<not> c < m" "retry_loop env m c = ([], Returned None)"
  | (found) "c < m"
      "retry_loop env m c = ([TryLegacy (c + 1)], Returned (get_guid_enhanced (env (c + 1))))"
      "truthy (get_guid_enhanced (env (c + 1)))"
  | (exit) "c < m"
      "retry_loop env m c = ([TryLegacy (c + 1), RebootDevice, DetectDevice], SysExit)"
  | (again) "c < m"
      "retry_loop env m c =
         ([TryLegacy (c + 1), RebootDevice, DetectDevice] @ fst (retry_loop env m (c + 1)),
          snd (retry_loop env m (c + 1)))"
  | (last) "c < m"
      "retry_loop env m c =
         (TryLegacy (c + 1) # fst (retry_loop env m (c + 1)), snd (retry_loop env m (c + 1)))"
proof (cases "c < m")
  case False
  then show ?thesis using retry_loop_stop stop by blast
next
  case cm: True
  show ?thesis
  proof (cases "truthy (get_guid_enhanced (env (c + 1)))")
    case True
    with cm show ?thesis using retry_loop_found found by blast
  next
    case nf: False
    show ?thesis
    proof (cases "c + 1 < m")
      case False
      with cm nf show ?thesis using retry_loop_last last by blast
    next
      case lt: True
      show ?thesis
      proof (cases "device_found (env (c + 1))")
        case True
        with cm nf lt show ?thesis using retry_loop_again again by blast
      next
        case False
        with cm nf lt show ?thesis using retry_loop_exit exit by blast
      qed
    qed
  qed
qed

lemma retry_loop_legacy:
  "\<exists>k. k \<le> m - c \<and>
     filter is_try_legacy (fst (retry_loop env m c)) = map TryLegacy [c + 1..<c + 1 + k]"
proof (induction "m - c" arbitrary: c)
  case 0
  then have "\<not> c < m" by simp
  then show ?case by (simp add: retry_loop_stop)
next
  case (Suc d)
  then have d: "d = m - (c + 1)" and cm: "c < m" by auto
  from Suc.hyps(1) [OF d] obtain k where k: "k \<le> m - (c + 1)"
    "filter is_try_legacy (fst (retry_loop env m (c + 1)))
       = map TryLegacy [c + 1 + 1..<c + 1 + 1 + k]" by blast
  have one: "[TryLegacy (c + 1)] = map TryLegacy [c + 1..<c + 1 + 1]" by simp
  have more: "TryLegacy (c + 1) # filter is_try_legacy (fst (retry_loop env m (c + 1)))
            = map TryLegacy [c + 1..<c + 1 + Suc k]"
    using k(2) by (simp add: upt_rec [of "Suc c"])
  show ?case
  proof (cases rule: retry_loop_cases [of c m env])
    case stop
    with cm show ?thesis by simp
  next
    case found
    with one cm show ?thesis by (intro exI [of _ 1]) simp
  next
    case exit
    with one cm show ?thesis by (intro exI [of _ 1]) simp
  next
    case again
    with more k(1) cm show ?thesis by (intro exI [of _ "Suc k"]) simp
  next
    case last
    with more k(1) cm show ?thesis by (intro exI [of _ "Suc k"]) simp
  qed
qed

lemma retry_loop_no_new: "filter is_try_new (fst (retry_loop env m c)) = []"
proof (induction "m - c" arbitrary: c)
  case 0
  then have "\<not> c < m" by simp
  then show ?case by (simp add: retry_loop_stop)
next
  case (Suc d)
  then have d: "d = m - (c + 1)" by auto
  note ih = Suc.hyps(1) [OF d]
  show ?case
    by (cases rule: retry_loop_cases [of c m env]) (use ih in simp_all)
qed

lemma retry_loop_result:
  "snd (retry_loop env m c) = Returned (Some g) \<Longrightarrow> \<exists>k. get_guid_enhanced (env k) = Some g"
proof (induction "m - c" arbitrary: c)
  case 0
  then have "\<not> c < m" by simp
  with 0 show ?case by (simp add: retry_loop_stop)
next
  case (Suc d)
  then have d: "d = m - (c + 1)" by auto
  note ih = Suc.hyps(1) [OF d]
  from Suc.prems show ?case
  proof (cases rule: retry_loop_cases [of c m env])
    case stop
    with Suc.prems show ?thesis by simp
  next
    case found
    with Suc.prems show ?thesis by auto
  next
    case exit
    with Suc.prems show ?thesis by simp
  next
    case again
    with Suc.prems ih show ?thesis by simp
  next
    case last
    with Suc.prems ih show ?thesis by simp
  qed
qed

lemma filter_new_map: "filter is_try_new (map TryNew xs) = map TryNew xs"
  by (induction xs) auto

lemma filter_legacy_map: "filter is_try_legacy (map TryNew xs) = []"
  by (induction xs) auto

lemma new_attempts_truthy:
  "truthy (snd (new_attempts env m as)) \<longleftrightarrow> snd (new_attempts env m as) \<noteq> None"
proof (cases "snd (new_attempts env m as)")
  case None
  then show ?thesis by simp
next
  case (Some g)
  with new_attempts_result [OF Some] show ?thesis by simp
qed

lemma get_guid_auto_new_trace:
  "\<exists>k\<le>3. fst (get_guid_auto_new env 3) = map TryNew [1..<k + 1]"
proof -
  from new_attempts_trace [of "[1..<3 + 1]" env 3]
  obtain k where k: "k \<le> 3" "fst (new_attempts env 3 [1..<3 + 1]) = map TryNew (take k [1..<3 + 1])"
    by auto
  have "take k [1..<3 + 1] = [1..<k + 1]" using k(1) by (simp add: take_upt)
  with k show ?thesis unfolding get_guid_auto_new_def by auto
qed

lemma get_guid_auto_new_exhausted:
  assumes "snd (get_guid_auto_new env 3) = None"
  shows "fst (get_guid_auto_new env 3) = map TryNew [1..<3 + 1]"
proof -
  have "[1..<3 + 1] = [1, 2, 3::nat]" by (simp add: upt_rec)
  then have "(3::nat) \<notin> set (butlast [1..<3 + 1])" by simp
  from new_attempts_exhausted [OF this] assms show ?thesis
    unfolding get_guid_auto_new_def by simp
qed

text \<open>
  C3. In every run of \<open>get_guid_auto\<close> the outer attempts of Strategy A are the
  attempts 1 to \<open>ka\<close> for some \<open>ka \<le> 3\<close>, and the outer attempts of Strategy B
  are the attempts 1 to \<open>kb\<close> for some \<open>kb \<le> 5\<close>. No attempt of Strategy A
  comes after the first attempt of Strategy B; and where Strategy B runs at all,
  Strategy A has made all three of its attempts and has returned no GUID.
\<close>

theorem get_guid_auto_attempts:
  "\<exists>ka kb. ka \<le> 3 \<and> kb \<le> 5
     \<and> filter is_try_new (fst (get_guid_auto env)) = map TryNew [1..<ka + 1]
     \<and> filter is_try_legacy (fst (get_guid_auto env)) = map TryLegacy [1..<kb + 1]
     \<and> filter is_try_new (dropWhile (\<lambda>e. \<not> is_try_legacy e) (fst (get_guid_auto env))) = []
     \<and> (0 < kb \<longrightarrow> ka = 3 \<and> snd (get_guid_auto_new (new_env env) 3) = None)"
proof -
  obtain evN g where N: "get_guid_auto_new (new_env env) 3 = (evN, g)"
    by (cases "get_guid_auto_new (new_env env) 3")
  from get_guid_auto_new_trace [of "new_env env"] N
  obtain ka where ka: "ka \<le> 3" "evN = map TryNew [1..<ka + 1]" by auto
  have nl: "\<And>x. x \<in> set evN \<Longrightarrow> \<not> is_try_legacy x" using ka(2) by auto
  show ?thesis
  proof (cases "truthy g")
    case True
    then have ev: "fst (get_guid_auto env) = evN" by (simp add: get_guid_auto_def N)
    have fn0: "filter is_try_new evN = map TryNew [1..<ka + 1]"
      unfolding ka(2) by (rule filter_new_map)
    have fl0: "filter is_try_legacy evN = []"
      unfolding ka(2) by (rule filter_legacy_map)
    have dw0: "dropWhile (\<lambda>e. \<not> is_try_legacy e) evN = []" using nl by simp
    show ?thesis
    proof (rule exI [of _ ka], rule exI [of _ 0], intro conjI)
      show "ka \<le> 3" by fact
      show "(0::nat) \<le> 5" by simp
      show "filter is_try_new (fst (get_guid_auto env)) = map TryNew [1..<ka + 1]"
        unfolding ev by (rule fn0)
      show "filter is_try_legacy (fst (get_guid_auto env)) = map TryLegacy [1..<0 + 1]"
        unfolding ev fl0 by simp
      show "filter is_try_new (dropWhile (\<lambda>e. \<not> is_try_legacy e) (fst (get_guid_auto env))) = []"
        unfolding ev dw0 by simp
      show "0 < (0::nat) \<longrightarrow> ka = 3 \<and> snd (get_guid_auto_new (new_env env) 3) = None"
        by simp
    qed
  next
    case False
    let ?evL = "fst (get_guid_auto_with_retry (legacy_env env))"
    have ev: "fst (get_guid_auto env) = evN @ [Fallback] @ ?evL"
      using False by (simp add: get_guid_auto_def N)
    from False N have gn: "snd (get_guid_auto_new (new_env env) 3) = None"
      using new_attempts_truthy [of "new_env env" 3 "[1..<3 + 1]"]
      by (simp add: get_guid_auto_new_def)
    from get_guid_auto_new_exhausted [OF gn] N have evN: "evN = map TryNew [1..<3 + 1]" by simp
    from retry_loop_legacy [of self_max_attempts 0 "legacy_env env"]
    obtain kb where kb: "kb \<le> 5" "filter is_try_legacy ?evL = map TryLegacy [1..<kb + 1]"
      by (auto simp: get_guid_auto_with_retry_def self_max_attempts_def)
    have noL: "filter is_try_new ?evL = []"
      by (simp add: get_guid_auto_with_retry_def retry_loop_no_new)
    have dw: "dropWhile (\<lambda>e. \<not> is_try_legacy e) (fst (get_guid_auto env))
            = dropWhile (\<lambda>e. \<not> is_try_legacy e) ?evL"
      unfolding ev using nl by (simp add: dropWhile_append2)
    have "set (dropWhile (\<lambda>e. \<not> is_try_legacy e) ?evL) \<subseteq> set ?evL"
      by (auto dest: set_dropWhileD)
    with noL have "filter is_try_new (dropWhile (\<lambda>e. \<not> is_try_legacy e) ?evL) = []"
      by (auto simp: filter_empty_conv)
    with dw have d: "filter is_try_new (dropWhile (\<lambda>e. \<not> is_try_legacy e) (fst (get_guid_auto env))) = []"
      by simp
    have fn: "filter is_try_new (fst (get_guid_auto env)) = map TryNew [1..<3 + 1]"
      unfolding ev evN using noL by (simp add: filter_new_map del: upt_Suc)
    have fl: "filter is_try_legacy (fst (get_guid_auto env)) = map TryLegacy [1..<kb + 1]"
      unfolding ev evN using kb(2) by (simp add: filter_legacy_map del: upt_Suc)
    show ?thesis
      using kb(1) fn fl d gn by (intro exI [of _ 3] exI [of _ kb]) simp
  qed
qed

lemma env0_trace:
  "fst (get_guid_auto env0) =
     [TryNew 1, TryNew 2, TryNew 3, Fallback,
      TryLegacy 1, RebootDevice, DetectDevice, TryLegacy 2, RebootDevice, DetectDevice,
      TryLegacy 3, RebootDevice, DetectDevice, TryLegacy 4, RebootDevice, DetectDevice,
      TryLegacy 5]"
  by code_simp

theorem get_guid_auto_attempts_witness:
  "fst (get_guid_auto env0) =
     [TryNew 1, TryNew 2, TryNew 3, Fallback,
      TryLegacy 1, RebootDevice, DetectDevice, TryLegacy 2, RebootDevice, DetectDevice,
      TryLegacy 3, RebootDevice, DetectDevice, TryLegacy 4, RebootDevice, DetectDevice,
      TryLegacy 5]
   \<and> (\<exists>ka kb. ka \<le> 3 \<and> kb \<le> 5
         \<and> filter is_try_new (fst (get_guid_auto env0)) = map TryNew [1..<ka + 1]
         \<and> filter is_try_legacy (fst (get_guid_auto env0)) = map TryLegacy [1..<kb + 1]
         \<and> 0 < kb \<and> ka = 3 \<and> snd (get_guid_auto_new (new_env env0) 3) = None)"
proof -
  from get_guid_auto_attempts [of env0] obtain ka kb where
    k: "ka \<le> 3" "kb \<le> 5"
      "filter is_try_new (fst (get_guid_auto env0)) = map TryNew [1..<ka + 1]"
      "filter is_try_legacy (fst (get_guid_auto env0)) = map TryLegacy [1..<kb + 1]"
      "0 < kb \<longrightarrow> ka = 3 \<and> snd (get_guid_auto_new (new_env env0) 3) = None"
    by blast
  have "length (filter is_try_legacy (fst (get_guid_auto env0))) = 5"
    unfolding env0_trace by simp
  with k(4) have "0 < kb" by (cases kb) auto
  with k env0_trace show ?thesis by blast
qed

lemma upper_char_hex: "c \<in> hex_chars \<Longrightarrow> upper_char c = c"
proof -
  have "list_all (\<lambda>c. upper_char c = c) ''0123456789ABCDEF''"
    by (simp add: upper_char_def)
  then show "c \<in> hex_chars \<Longrightarrow> upper_char c = c"
    unfolding hex_chars_def list_all_iff by blast
qed

lemma upper_char_hyphen: "upper_char CHR ''-'' = CHR ''-''"
  by (simp add: upper_char_def)

lemma py_upper_hex: "set g \<subseteq> hex_chars \<Longrightarrow> py_upper g = g"
  unfolding py_upper_def by (induction g) (auto simp: upper_char_hex)

lemma py_upper_append: "py_upper (a @ b) = py_upper a @ py_upper b"
  by (simp add: py_upper_def)

lemma py_upper_hyphen: "py_upper (CHR ''-'' # b) = CHR ''-'' # py_upper b"
  by (simp add: py_upper_def upper_char_hyphen)

lemma valid_guid_form:
  assumes "validate_guid_structure g"
  shows "length g = 36 \<and> py_upper g = g"
proof -
  from assms have "guid_shape hex_chars (set ''89AB'') g" by (simp add: validate_shape)
  then obtain g1 g2 g3 g4 g5 where
    g: "g = g1 @ ''-'' @ g2 @ ''-'' @ g3 @ ''-'' @ g4 @ ''-'' @ g5"
    and len: "length g1 = 8" "length g2 = 4" "length g3 = 4" "length g4 = 4" "length g5 = 12"
    and hex: "set (g1 @ g2 @ g3 @ g4 @ g5) \<subseteq> hex_chars"
    unfolding guid_shape_def by blast
  from hex have h: "set g1 \<subseteq> hex_chars" "set g2 \<subseteq> hex_chars" "set g3 \<subseteq> hex_chars"
    "set g4 \<subseteq> hex_chars" "set g5 \<subseteq> hex_chars" by auto
  have "length g = 36" unfolding g using len by simp
  moreover have "py_upper g = g"
    unfolding g by (simp add: py_upper_append py_upper_hyphen py_upper_hex h)
  ultimately show ?thesis by blast
qed

lemma analyze_head_member:
  assumes "analyze_guid_confidence cs = Some ((g, s, n) # rest)"
  shows "g \<in> guid ` set cs"
proof -
  from assms have ne: "cs \<noteq> []" by (auto simp: analyze_guid_confidence_def)
  from set_analyze [OF ne] assms have "(g, s, n) \<in> scored_guid cs ` guid ` set cs"
    by auto
  then show ?thesis by (auto simp: scored_guid_def)
qed

lemma get_guid_enhanced_Some:
  assumes "get_guid_enhanced a = Some g"
  shows "\<exists>data s n rest. trace_file a = Some data
           \<and> analyze_guid_confidence
                (concat (map (\<lambda>(pattern, pos).
                                if pattern = ''BLDatabaseManager''
                                then extract_guid_candidates data (int pos) 512
                                else [])
                           (parse_tracev3_structure data)))
              = Some ((g, s, n) # rest)"
proof -
  obtain code out err where c: "collect a = (code, out, err)" by (cases "collect a")
  from assms c have z: "code = 0"
    by (auto simp: get_guid_enhanced_def split: if_splits)
  from assms c z obtain data where d: "trace_file a = Some data"
    by (cases "trace_file a") (auto simp: get_guid_enhanced_def)
  let ?all = "concat (map (\<lambda>(pattern, pos).
                                if pattern = ''BLDatabaseManager''
                                then extract_guid_candidates data (int pos) 512
                                else [])
                           (parse_tracev3_structure data))"
  from assms c z d have r: "(if ?all = [] then None
       else (case analyze_guid_confidence ?all of
               None \<Rightarrow> None
             | Some [] \<Rightarrow> None
             | Some ((best_guid, best_score, best_count) # _) \<Rightarrow>
                 let confidence =
                       (if 30 \<le> best_score then HIGH
                        else if 15 \<le> best_score then MEDIUM
                        else LOW)
                 in if confidence \<in> {LOW, MEDIUM} \<and> confirm_guid_manual best_guid = []
                    then None
                    else Some best_guid)) = Some g"
    by (simp add: get_guid_enhanced_def Let_def)
  then obtain s n rest where "analyze_guid_confidence ?all = Some ((g, s, n) # rest)"
    by (auto simp: Let_def split: if_splits option.splits list.splits)
  with d show ?thesis by blast
qed

lemma get_guid_enhanced_valid:
  assumes "get_guid_enhanced a = Some g"
  shows "validate_guid_structure g"
proof -
  from get_guid_enhanced_Some [OF assms] obtain data s n rest where
    "analyze_guid_confidence
       (concat (map (\<lambda>(pattern, pos).
                       if pattern = ''BLDatabaseManager''
                       then extract_guid_candidates data (int pos) 512
                       else [])
                  (parse_tracev3_structure data)))
     = Some ((g, s, n) # rest)" by blast
  from analyze_head_member [OF this] obtain c pattern pos where
    c: "c \<in> set (if pattern = ''BLDatabaseManager''
                  then extract_guid_candidates data (int pos) 512 else [])" "guid c = g"
    by auto
  then have "c \<in> set (extract_guid_candidates data (int pos) 512)"
    by (auto split: if_splits)
  then have "validate_guid_structure (guid c)" by (rule extract_member)
  with c(2) show ?thesis by simp
qed

text \<open>
  C10. A GUID returned by the structured archive query (\<open>get_guid_auto_new\<close>),
  by the legacy raw scan (\<open>get_guid_enhanced\<close>) or by the engine as a whole
  (\<open>get_guid_auto\<close>) passes \<open>validate_guid_structure\<close>, has 36 characters and is
  in upper case; so a candidate that fails validation is returned by neither strategy.
\<close>

theorem acquired_guid_valid:
  assumes "snd (get_guid_auto_new env m) = Some g
         \<or> get_guid_enhanced a = Some g
         \<or> snd (get_guid_auto eenv) = Returned (Some g)"
  shows "validate_guid_structure g \<and> length g = 36 \<and> py_upper g = g"
proof -
  have "validate_guid_structure g"
    using assms
  proof (elim disjE)
    assume "snd (get_guid_auto_new env m) = Some g"
    then show ?thesis
      unfolding get_guid_auto_new_def using new_attempts_result by blast
  next
    assume "get_guid_enhanced a = Some g"
    then show ?thesis by (rule get_guid_enhanced_valid)
  next
    assume r: "snd (get_guid_auto eenv) = Returned (Some g)"
    obtain evN g' where N: "get_guid_auto_new (new_env eenv) 3 = (evN, g')"
      by (cases "get_guid_auto_new (new_env eenv) 3")
    show ?thesis
    proof (cases "truthy g'")
      case True
      with r N have "snd (get_guid_auto_new (new_env eenv) 3) = Some g"
        by (simp add: get_guid_auto_def)
      then show ?thesis
        unfolding get_guid_auto_new_def using new_attempts_result by blast
    next
      case False
      with r N have "snd (retry_loop (legacy_env eenv) self_max_attempts 0) = Returned (Some g)"
        by (simp add: get_guid_auto_def get_guid_auto_with_retry_def)
      from retry_loop_result [OF this] obtain k where
        "get_guid_enhanced (legacy_env eenv k) = Some g" by blast
      then show ?thesis by (rule get_guid_enhanced_valid)
    qed
  qed
  with valid_guid_form show ?thesis by blast
qed

lemma attempt_new0_found:
  "snd (get_guid_auto_new (\<lambda>n. attempt_new0) 3) = Some ''2A22A82B-C342-444D-972F-5270FB5080DF''"
  by code_simp

lemma attempt_legacy0_found:
  "get_guid_enhanced attempt_legacy0 = Some ''2A22A82B-C342-444D-972F-5270FB5080DF''"
  by code_simp

theorem acquired_guid_valid_witness:
  "snd (get_guid_auto_new (\<lambda>n. attempt_new0) 3) = Some ''2A22A82B-C342-444D-972F-5270FB5080DF''
   \<and> get_guid_enhanced attempt_legacy0 = Some ''2A22A82B-C342-444D-972F-5270FB5080DF''
   \<and> validate_guid_structure ''2A22A82B-C342-444D-972F-5270FB5080DF''
   \<and> length ''2A22A82B-C342-444D-972F-5270FB5080DF'' = 36
   \<and> py_upper ''2A22A82B-C342-444D-972F-5270FB5080DF'' = ''2A22A82B-C342-444D-972F-5270FB5080DF''"
  using acquired_guid_valid [of "\<lambda>n. attempt_new0" 3 "''2A22A82B-C342-444D-972F-5270FB5080DF''" attempt_legacy0]
    attempt_new0_found attempt_legacy0_found
  by blast

section \<open>Properties of the workflow\<close>

lemma download_stages_actions:
  "a \<in> set (fst (download_stages w)) \<Longrightarrow> \<not> deploys a \<and> a \<noteq> DbConnect \<and> a \<noteq> DbClose"
  unfolding download_stages_def Let_def
  by (auto split: if_splits sum.splits guid_outcome.splits option.splits prod.splits)

lemma deploy_stages_no_handle:
  "DbConnect \<notin> set (fst (deploy_stages w p)) \<and> DbClose \<notin> set (fst (deploy_stages w p))"
  by (auto simp: deploy_stages_def relocation_stages_def stale_files_def cleanup_files_def)

lemma Hacktivating_cases:
  obtains (stopped) acts out where "download_stages w = (acts, Inl out)"
      "Hacktivating w = (acts, out)"
  | (crashed) acts p where "download_stages w = (acts, Inr p)" "\<not> connect_ok (db w)"
      "Hacktivating w = (acts, Crashed)"
  | (invalid) acts p e where "download_stages w = (acts, Inr p)" "connect_ok (db w)"
      "check_asset_table (db w) = Inl e"
      "Hacktivating w = (acts @ [DbConnect, DbClose], Failed InvalidPayload)"
  | (valid) acts p n where "download_stages w = (acts, Inr p)" "connect_ok (db w)"
      "check_asset_table (db w) = Inr n"
      "Hacktivating w = (acts @ [DbConnect, DbClose] @ SetProgress 50 # fst (deploy_stages w p),
                         snd (deploy_stages w p))"
proof -
  obtain acts r where d: "download_stages w = (acts, r)" by (cases "download_stages w")
  show ?thesis
  proof (cases r)
    case (Inl out)
    with d show ?thesis using stopped by (simp add: Hacktivating_def)
  next
    case (Inr p)
    show ?thesis
    proof (cases "connect_ok (db w)")
      case False
      with d Inr show ?thesis using crashed by (simp add: Hacktivating_def payload_stages_def)
    next
      case True
      show ?thesis
      proof (cases "check_asset_table (db w)")
        case (Inl e)
        with d Inr True show ?thesis using invalid
          by (simp add: Hacktivating_def payload_stages_def)
      next
        case n: (Inr n)
        with d Inr True show ?thesis using valid
          by (simp add: Hacktivating_def payload_stages_def)
      qed
    qed
  qed
qed

lemma no_handle_upto_download:
  "download_stages w = (acts, r) \<Longrightarrow> DbConnect \<notin> set acts \<and> DbClose \<notin> set acts \<and> \<not> list_ex deploys acts"
  using download_stages_actions [of _ w] by (auto simp: list_ex_iff)

lemma handle_released:
  "DbConnect \<in> set (fst (Hacktivating w)) \<longrightarrow>
     (\<exists>pre post. fst (Hacktivating w) = pre @ [DbConnect, DbClose] @ post
                 \<and> DbConnect \<notin> set pre \<and> DbConnect \<notin> set post)"
proof (cases rule: Hacktivating_cases [of w])
  case (stopped acts out)
  with no_handle_upto_download [OF stopped(1)] show ?thesis by simp
next
  case (crashed acts p)
  with no_handle_upto_download [OF crashed(1)] show ?thesis by simp
next
  case (invalid acts p e)
  with no_handle_upto_download [OF invalid(1)] show ?thesis
    by (intro impI exI [of _ acts] exI [of _ "[]"]) simp
next
  case (valid acts p n)
  with no_handle_upto_download [OF valid(1)] deploy_stages_no_handle [of w p] show ?thesis
    by (intro impI exI [of _ acts] exI [of _ "SetProgress 50 # fst (deploy_stages w p)"]) simp
qed

text \<open>
  C8. When a run has opened the downloaded database and its asset table exists but
  holds no rows, the run ends with the invalid-payload failure right after the handle
  is closed: closing the handle is its last action, and no action of the deployment
  (no removal, push, pull or reboot) was taken. In every run of every world, a handle
  that was opened is closed by the very next action, whatever the outcome of the
  stage, and no second handle is opened.
\<close>

theorem validate_payload_empty_asset_table:
  assumes reached: "DbConnect \<in> set (fst (Hacktivating w))"
    and table: "asset_tables (db w) = Some t" "0 < t"
    and rows: "asset_rows (db w) = Some 0"
  shows "snd (Hacktivating w) = Failed InvalidPayload
       \<and> (\<exists>pre. fst (Hacktivating w) = pre @ [DbConnect, DbClose]
                \<and> DbConnect \<notin> set pre \<and> \<not> list_ex deploys pre)
       \<and> (\<forall>w'. DbConnect \<in> set (fst (Hacktivating w')) \<longrightarrow>
              (\<exists>pre post. fst (Hacktivating w') = pre @ [DbConnect, DbClose] @ post
                          \<and> DbConnect \<notin> set pre \<and> DbConnect \<notin> set post))"
proof -
  have bad: "check_asset_table (db w) = Inl OtherError"
    using table rows by (simp add: check_asset_table_def)
  have "snd (Hacktivating w) = Failed InvalidPayload
       \<and> (\<exists>pre. fst (Hacktivating w) = pre @ [DbConnect, DbClose]
                \<and> DbConnect \<notin> set pre \<and> \<not> list_ex deploys pre)"
  proof (cases rule: Hacktivating_cases [of w])
    case (stopped acts out)
    with reached no_handle_upto_download [OF stopped(1)] show ?thesis by simp
  next
    case (crashed acts p)
    with reached no_handle_upto_download [OF crashed(1)] show ?thesis by simp
  next
    case (invalid acts p e)
    with no_handle_upto_download [OF invalid(1)] show ?thesis by simp
  next
    case (valid acts p n)
    with bad show ?thesis by simp
  qed
  with handle_released show ?thesis by blast
qed

lemma world_empty_assets_run:
  "Hacktivating world_empty_assets =
     ([SetProgress 10, AcquireGuid, SetProgress 20,
       GetUrls ''iPad1,2'' (Some ''2A22A82B-C342-444D-972F-5270FB5080DF'') ''ABC123'',
       SetProgress 30, Preload ''stage1'' ''u1'', Preload ''stage2'' ''u2'',
       Preload ''stage3'' ''u3'', SetProgress 35,
       Download ''u3'' ''downloads.28.sqlitedb'', SetProgress 45, DbConnect, DbClose],
      Failed InvalidPayload)"
  by code_simp

lemma world_empty_assets_db:
  "asset_tables (db world_empty_assets) = Some 1 \<and> asset_rows (db world_empty_assets) = Some 0"
  by code_simp

theorem validate_payload_empty_asset_table_witness:
  "DbConnect \<in> set (fst (Hacktivating world_empty_assets))
   \<and> asset_tables (db world_empty_assets) = Some 1
   \<and> asset_rows (db world_empty_assets) = Some 0
   \<and> snd (Hacktivating world_empty_assets) = Failed InvalidPayload
   \<and> (\<exists>pre. fst (Hacktivating world_empty_assets) = pre @ [DbConnect, DbClose]
            \<and> DbConnect \<notin> set pre \<and> \<not> list_ex deploys pre)
   \<and> (\<exists>pre post. fst (Hacktivating world_empty_assets) = pre @ [DbConnect, DbClose] @ post
                    \<and> DbConnect \<notin> set pre \<and> DbConnect \<notin> set post)"
proof -
  have r: "DbConnect \<in> set (fst (Hacktivating world_empty_assets))"
    unfolding world_empty_assets_run by simp
  have p: "(0::nat) < 1" by simp
  from world_empty_assets_db have t: "asset_tables (db world_empty_assets) = Some 1"
    and z: "asset_rows (db world_empty_assets) = Some 0" by blast+
  from validate_payload_empty_asset_table [OF r t p z] r t z show ?thesis by blast
qed

text \<open>
  C2 does not hold of the code. \<open>Hacktivating\<close> does not look at the result of
  \<open>get_guid_auto\<close>: in \<open>world_no_guid\<close> the engine exhausts both strategies and
  returns no GUID, and the run goes on to ask the payload directory for the GUID
  \<open>None\<close>, to preload, download, validate and deploy, and ends as done.
\<close>

theorem Hacktivating_continues_without_guid:
  "get_guid_auto (engine world_no_guid) =
     ([TryNew 1, TryNew 2, TryNew 3, Fallback,
       TryLegacy 1, RebootDevice, DetectDevice, TryLegacy 2, RebootDevice, DetectDevice,
       TryLegacy 3, RebootDevice, DetectDevice, TryLegacy 4, RebootDevice, DetectDevice,
       TryLegacy 5],
      Returned None)
   \<and> Hacktivating world_no_guid =
     ([SetProgress 10, AcquireGuid, SetProgress 20,
       GetUrls ''iPad1,2'' None ''ABC123'', SetProgress 30,
       Preload ''stage1'' ''u1'', Preload ''stage2'' ''u2'', Preload ''stage3'' ''u3'',
       SetProgress 35, Download ''u3'' ''downloads.28.sqlitedb'', SetProgress 45,
       DbConnect, DbClose, SetProgress 50,
       RmFile ''/Downloads/downloads.28.sqlitedb'',
       RmFile ''/Downloads/downloads.28.sqlitedb-wal'',
       RmFile ''/Downloads/downloads.28.sqlitedb-shm'',
       RmFile ''/Books/asset.epub'',
       RmFile ''/Books/iTunesMetadata.plist'',
       RmFile ''/iTunes_Control/iTunes/iTunesMetadata.plist'',
       RmFile ''/iTunes_Control/iTunes/iTunesMetadata.plist.ext'',
       PushFile ''downloads.28.sqlitedb'' ''/Downloads/downloads.28.sqlitedb'',
       SetProgress 60,
       CleanupRm ''/Downloads/downloads.28.sqlitedb-wal'',
       CleanupRm ''/Downloads/downloads.28.sqlitedb-shm'',
       CleanupRm ''/Books/asset.epub'',
       CleanupRm ''/Books/iTunesMetadata.plist'',
       CleanupRm ''/iTunes_Control/iTunes/iTunesMetadata.plist'',
       CleanupRm ''/iTunes_Control/iTunes/iTunesMetadata.plist.ext'',
       SetProgress 65, Reboot,
       PullFile ''/iTunes_Control/iTunes/iTunesMetadata.plist'' ''temp_plist_copy.plist'',
       PushFile ''temp_plist_copy.plist'' ''/Books/iTunesMetadata.plist'',
       SetProgress 75, Reboot, SetProgress 85,
       PullFile ''/Books/iTunesMetadata.plist'' ''temp_plist_copy.plist'',
       PushFile ''temp_plist_copy.plist'' ''/iTunes_Control/iTunes/iTunesMetadata.plist'',
       SetProgress 90, SetProgress 100, Reboot, ShowDone],
      Done)
   \<and> list_ex later_stage (fst (Hacktivating world_no_guid))"
  by code_simp

section \<open>Properties of the file removal\<close>

text \<open>
  C9 does not hold of the code. \<open>rm_file\<close> takes a failed removal for success only
  when the captured stderr contains \<open>ENOENT\<close>. A tool that reports the missing file
  as \<open>No such file or directory\<close> makes it return false, while the cleanup loop of
  the workflow reads the same result of the same command as "not present -- OK".
\<close>

theorem rm_file_no_such_file:
  "rm_file (1, [], ''No such file or directory'') = False
   \<and> cleanup_report (1, [], ''No such file or directory'') = NotPresentOK
   \<and> rm_file (1, [], ''ENOENT'') = True
   \<and> rm_file (0, [], []) = True"
  by code_simp

end
